theory Spec2Isabelle
  imports Complex_Main "HOL-Library.AList"
begin

section \<open>Media table and image types\<close>

text \<open>
  The keys of \<open>RESIZE_DEFINITIONS\<close> are the two media; the image types are the three
  entries of \<open>IMAGE_TYPES\<close> (Photo, Staff and Logo stand for the Japanese labels of the
  source). A table entry is a size with positive integer literals or \<open>null\<close>.
\<close>

datatype media = EPARK | PeakManager

datatype image_type = Photo | Staff | Logo

record target_size =
  ts_w :: nat
  ts_h :: nat

fun RESIZE_DEFINITIONS :: "media \<Rightarrow> image_type \<Rightarrow> target_size option" where
  "RESIZE_DEFINITIONS EPARK Photo = Some \<lparr>ts_w = 660, ts_h = 440\<rparr>"
| "RESIZE_DEFINITIONS EPARK Staff = Some \<lparr>ts_w = 150, ts_h = 174\<rparr>"
| "RESIZE_DEFINITIONS EPARK Logo = Some \<lparr>ts_w = 330, ts_h = 220\<rparr>"
| "RESIZE_DEFINITIONS PeakManager Photo = Some \<lparr>ts_w = 900, ts_h = 600\<rparr>"
| "RESIZE_DEFINITIONS PeakManager Staff = Some \<lparr>ts_w = 400, ts_h = 400\<rparr>"
| "RESIZE_DEFINITIONS PeakManager Logo = None"

section \<open>Strings and the classifier\<close>

text \<open>
  A JavaScript string is a sequence of UTF-16 code units. \<open>units\<close> reads an ASCII
  literal as such a sequence.
\<close>

type_synonym jsstring = "nat list"

definition units :: "string \<Rightarrow> jsstring" where
  "units s = map of_char s"

text \<open>
  \<open>toLowerCase\<close>: A to Z go to a to z. Of the code units outside ASCII, only the two whose
  lower case contains an ASCII letter are written out (the Kelvin sign gives k, the dotted
  capital I gives i followed by a combining dot); the others are kept as they are, so that
  the model agrees with the source on every occurrence of an ASCII or katakana keyword.
\<close>

definition lower_unit :: "nat \<Rightarrow> jsstring" where
  "lower_unit c =
     (if 65 \<le> c \<and> c \<le> 90 then [c + 32]
      else if c = 8490 then [107]
      else if c = 304 then [105, 775]
      else [c])"

definition toLowerCase :: "jsstring \<Rightarrow> jsstring" where
  "toLowerCase s = concat (map lower_unit s)"

fun startsWith :: "jsstring \<Rightarrow> jsstring \<Rightarrow> bool" where
  "startsWith s [] = True"
| "startsWith [] (k # ks) = False"
| "startsWith (c # cs) (k # ks) = (c = k \<and> startsWith cs ks)"

text \<open>\<open>String.prototype.includes\<close> (the name alone is reserved in Isabelle).\<close>

fun js_includes :: "jsstring \<Rightarrow> jsstring \<Rightarrow> bool" where
  "js_includes [] k = startsWith [] k"
| "js_includes (c # cs) k = (startsWith (c # cs) k \<or> js_includes cs k)"

text \<open>The synonym of "logo" in katakana, as its two code units.\<close>

definition logo_kana :: jsstring where
  "logo_kana = [12525, 12468]"

definition photo_keywords :: "jsstring list" where
  "photo_keywords = [units ''main'', units ''top'', units ''shop'', units ''photo'']"

definition detectImageType :: "jsstring \<Rightarrow> image_type" where
  "detectImageType fileName =
     (let lowerCaseName = toLowerCase fileName in
      if js_includes lowerCaseName (units ''staff'') then Staff
      else if js_includes lowerCaseName (units ''logo'') \<or> js_includes lowerCaseName logo_kana then Logo
      else if list_ex (\<lambda>keyword. js_includes lowerCaseName keyword) photo_keywords then Photo
      else Photo)"

section \<open>Archive entry names\<close>

text \<open>
  \<open>lastIndexOf\<close> is \<open>-1\<close> when the unit does not occur; \<open>substring\<close> takes a negative
  end as 0; \<open>||\<close> takes its right operand when the left one is the empty string.
\<close>

fun lastIndexOf :: "jsstring \<Rightarrow> nat \<Rightarrow> int" where
  "lastIndexOf [] c = - 1"
| "lastIndexOf (x # xs) c =
     (if 0 \<le> lastIndexOf xs c then lastIndexOf xs c + 1
      else if x = c then 0 else - 1)"

definition substring0 :: "jsstring \<Rightarrow> int \<Rightarrow> jsstring" where
  "substring0 s e = take (nat (max 0 e)) s"

definition dot :: nat where
  "dot = 46"

definition fileNameWithoutExt :: "jsstring \<Rightarrow> jsstring" where
  "fileNameWithoutExt name =
     (if substring0 name (lastIndexOf name dot) = [] then name
      else substring0 name (lastIndexOf name dot))"

definition entryName :: "jsstring \<Rightarrow> jsstring" where
  "entryName name = fileNameWithoutExt name @ units ''.jpg''"

section \<open>Numbers\<close>

text \<open>
  A JavaScript number is an IEEE 754 binary64 value, and every arithmetic operation gives
  the value nearest to the exact result, ties going to the even significand.
  \<open>binary64 x\<close> is that value for the exact result \<open>x\<close>: \<open>expo\<close> finds the binary exponent
  of a positive number and \<open>rne\<close> rounds the significand, scaled to 53 bits, to the nearest
  integer. The exponent range is taken as unbounded: overflow to \<open>Infinity\<close>, gradual
  underflow and \<open>NaN\<close> are not modelled.
\<close>

definition rne :: "real \<Rightarrow> int" where
  "rne q =
     (if q - of_int \<lfloor>q\<rfloor> < 1 / 2 then \<lfloor>q\<rfloor>
      else if 1 / 2 < q - of_int \<lfloor>q\<rfloor> then \<lfloor>q\<rfloor> + 1
      else if even \<lfloor>q\<rfloor> then \<lfloor>q\<rfloor> else \<lfloor>q\<rfloor> + 1)"

function expo :: "real \<Rightarrow> int" where
  "expo x =
     (if x \<le> 0 then 0
      else if 2 \<le> x then expo (x / 2) + 1
      else if x < 1 then expo (x * 2) - 1
      else 0)"
  by pat_completeness auto
termination
proof (relation "measure (\<lambda>x. nat \<bar>\<lfloor>log 2 x\<rfloor>\<bar>)")
  show "wf (measure (\<lambda>x. nat \<bar>\<lfloor>log 2 x\<rfloor>\<bar>))"
    by simp
next
  fix x :: real
  assume "\<not> x \<le> 0" and big: "2 \<le> x"
  then have "log 2 (x / 2) = log 2 x - 1"
    by (simp add: log_divide)
  moreover from big have "1 \<le> log 2 x"
    by (simp add: le_log_iff)
  then have "1 \<le> \<lfloor>log 2 x\<rfloor>"
    by (simp add: le_floor_iff)
  ultimately show "(x / 2, x) \<in> measure (\<lambda>x. nat \<bar>\<lfloor>log 2 x\<rfloor>\<bar>)"
    by simp
next
  fix x :: real
  assume pos: "\<not> x \<le> 0" and "\<not> 2 \<le> x" and small: "x < 1"
  then have "log 2 (x * 2) = log 2 x + 1"
    by (simp add: log_mult)
  moreover from pos small have "log 2 x < 0"
    by simp
  then have "\<lfloor>log 2 x\<rfloor> \<le> - 1"
    by (simp add: floor_le_iff)
  ultimately have "nat \<bar>\<lfloor>log 2 (x * 2)\<rfloor>\<bar> < nat \<bar>\<lfloor>log 2 x\<rfloor>\<bar>"
    by (simp only: floor_add_int [where z = 1, simplified]) linarith
  then show "(x * 2, x) \<in> measure (\<lambda>x. nat \<bar>\<lfloor>log 2 x\<rfloor>\<bar>)"
    by simp
qed

declare expo.simps [simp del]

definition binary64 :: "real \<Rightarrow> real" where
  "binary64 x =
     (if x = 0 then 0
      else of_int (rne (x / 2 powi (expo \<bar>x\<bar> - 52))) * 2 powi (expo \<bar>x\<bar> - 52))"

definition unit_roundoff :: real where
  "unit_roundoff = 1 / 2 ^ 53"

section \<open>Images, crop rectangles and canvases\<close>

text \<open>
  An image has its intrinsic dimensions (integers, held exactly by a number) and its
  decoded pixels. A canvas is known by its dimensions and by the one \<open>drawImage\<close> call
  that filled it: what was drawn (an image or another canvas) and the source rectangle
  that was read; the destination is always the whole canvas.
\<close>

record image =
  img_width :: nat
  img_height :: nat
  img_data :: "nat list"

record crop_rect =
  crop_x :: real
  crop_y :: real
  crop_width :: real
  crop_height :: real

datatype canvas = Canvas (cv_width: int) (cv_height: int) (cv_from: drawn) (cv_src: crop_rect)
  and drawn = Img image | Cnv canvas

datatype error = LoadError

text \<open>
  The source rectangle chosen in \<open>getCroppedCanvas\<close>: the manual crop when there is one,
  the centred cover crop otherwise, every operation rounded. With \<open>image.height = 0\<close> the
  quotient \<open>image.width / image.height\<close> is \<open>Infinity\<close> (greater than every target aspect)
  or \<open>NaN\<close> (greater than nothing), which is written out. Target sizes are entries of the
  table, so their height is never 0.
\<close>

definition targetAspect :: "target_size \<Rightarrow> real" where
  "targetAspect targetSize = binary64 (real (ts_w targetSize) / real (ts_h targetSize))"

definition imageWider :: "image \<Rightarrow> target_size \<Rightarrow> bool" where
  "imageWider img targetSize =
     (if img_height img = 0 then 0 < img_width img
      else binary64 (real (img_width img) / real (img_height img)) > targetAspect targetSize)"

definition sourceRect :: "image \<Rightarrow> crop_rect option \<Rightarrow> target_size \<Rightarrow> crop_rect" where
  "sourceRect img cropData targetSize =
     (case cropData of
        Some c \<Rightarrow>
          \<lparr>crop_x = crop_x c, crop_y = crop_y c,
           crop_width = crop_width c, crop_height = crop_height c\<rparr>
      | None \<Rightarrow>
          if imageWider img targetSize then
            \<lparr>crop_x =
               binary64 (binary64 (real (img_width img)
                  - binary64 (real (img_height img) * targetAspect targetSize)) / 2),
             crop_y = 0,
             crop_width = binary64 (real (img_height img) * targetAspect targetSize),
             crop_height = real (img_height img)\<rparr>
          else
            \<lparr>crop_x = 0,
             crop_y =
               binary64 (binary64 (real (img_height img)
                  - binary64 (real (img_width img) / targetAspect targetSize)) / 2),
             crop_width = real (img_width img),
             crop_height = binary64 (real (img_width img) / targetAspect targetSize)\<rparr>)"

text \<open>
  \<open>getCroppedCanvas\<close> of the last version of the application: one \<open>drawImage\<close> from the
  image onto a canvas of the target size. The first argument is what loading the URL
  gives: \<open>None\<close> when \<open>onerror\<close> fires, which rejects the promise.
\<close>

definition getCroppedCanvas ::
  "image option \<Rightarrow> crop_rect option \<Rightarrow> target_size \<Rightarrow> error + canvas" where
  "getCroppedCanvas loaded cropData targetSize =
     (case loaded of
        None \<Rightarrow> Inl LoadError
      | Some img \<Rightarrow>
          Inr (Canvas (int (ts_w targetSize)) (int (ts_h targetSize)) (Img img)
                 (sourceRect img cropData targetSize)))"

section \<open>Progressive resampling\<close>

text \<open>
  The \<open>while\<close> loop of the progressive \<open>getCroppedCanvas\<close>: the successive values of
  \<open>(currentCanvas, currentWidth, currentHeight)\<close>, one per completed iteration. A canvas
  dimension is stored as an integer.
\<close>

function halving ::
  "target_size \<Rightarrow> canvas \<Rightarrow> real \<Rightarrow> real \<Rightarrow> (canvas \<times> real \<times> real) list" where
  "halving targetSize currentCanvas currentWidth currentHeight =
     (if currentWidth > real (ts_w targetSize) * 2 \<and> currentHeight > real (ts_h targetSize) * 2
      then
        (if of_int \<lfloor>currentWidth / 2\<rfloor> < real (ts_w targetSize) * 1.5 then []
         else
           (Canvas \<lfloor>currentWidth / 2\<rfloor> \<lfloor>currentHeight / 2\<rfloor> (Cnv currentCanvas)
              \<lparr>crop_x = 0, crop_y = 0, crop_width = currentWidth, crop_height = currentHeight\<rparr>,
            of_int \<lfloor>currentWidth / 2\<rfloor>, of_int \<lfloor>currentHeight / 2\<rfloor>)
           # halving targetSize
               (Canvas \<lfloor>currentWidth / 2\<rfloor> \<lfloor>currentHeight / 2\<rfloor> (Cnv currentCanvas)
                  \<lparr>crop_x = 0, crop_y = 0, crop_width = currentWidth, crop_height = currentHeight\<rparr>)
               (of_int \<lfloor>currentWidth / 2\<rfloor>) (of_int \<lfloor>currentHeight / 2\<rfloor>))
      else [])"
  by pat_completeness auto
termination
proof (relation "measure (\<lambda>(targetSize, currentCanvas, currentWidth, currentHeight).
                   nat \<lceil>currentWidth\<rceil>)")
  show "wf (measure (\<lambda>(targetSize, currentCanvas, currentWidth, currentHeight).
                   nat \<lceil>currentWidth\<rceil>))"
    by simp
next
  fix targetSize :: target_size and currentCanvas :: canvas
    and currentWidth currentHeight :: real
  assume guard: "real (ts_w targetSize) * 2 < currentWidth \<and> real (ts_h targetSize) * 2 < currentHeight"
  moreover have "0 \<le> real (ts_w targetSize) * 2"
    by simp
  ultimately have pos: "0 < currentWidth"
    by linarith
  have "of_int \<lfloor>currentWidth / 2\<rfloor> \<le> currentWidth / 2"
    by (rule of_int_floor_le)
  with pos have "real_of_int \<lfloor>currentWidth / 2\<rfloor> < currentWidth"
    by linarith
  also have "currentWidth \<le> of_int \<lceil>currentWidth\<rceil>"
    by (rule le_of_int_ceiling)
  finally have lt: "\<lfloor>currentWidth / 2\<rfloor> < \<lceil>currentWidth\<rceil>"
    by simp
  from pos have "0 < \<lceil>currentWidth\<rceil>"
    by simp
  with lt show "((targetSize,
          Canvas \<lfloor>currentWidth / 2\<rfloor> \<lfloor>currentHeight / 2\<rfloor> (Cnv currentCanvas)
            \<lparr>crop_x = 0, crop_y = 0, crop_width = currentWidth, crop_height = currentHeight\<rparr>,
          real_of_int \<lfloor>currentWidth / 2\<rfloor>, real_of_int \<lfloor>currentHeight / 2\<rfloor>),
         (targetSize, currentCanvas, currentWidth, currentHeight))
        \<in> measure (\<lambda>(targetSize, currentCanvas, currentWidth, currentHeight). nat \<lceil>currentWidth\<rceil>)"
    by simp
qed

text \<open>
  A canvas dimension set from a number: the number is truncated and taken modulo
  \<open>2^32\<close>, and a result above \<open>2^31 - 1\<close> gives the default of the attribute (300 for the
  width, 150 for the height).
\<close>

definition canvasDim :: "real \<Rightarrow> int \<Rightarrow> int" where
  "canvasDim v dflt =
     (if (if v < 0 then \<lceil>v\<rceil> else \<lfloor>v\<rfloor>) mod 2 ^ 32 \<le> 2147483647
      then (if v < 0 then \<lceil>v\<rceil> else \<lfloor>v\<rfloor>) mod 2 ^ 32
      else dflt)"

definition cropCanvas :: "image \<Rightarrow> crop_rect \<Rightarrow> canvas" where
  "cropCanvas img src =
     Canvas (canvasDim (crop_width src) 300) (canvasDim (crop_height src) 150) (Img img) src"

definition finalState ::
  "target_size \<Rightarrow> image \<Rightarrow> crop_rect \<Rightarrow> canvas \<times> real \<times> real" where
  "finalState targetSize img src =
     last ((cropCanvas img src, crop_width src, crop_height src)
           # halving targetSize (cropCanvas img src) (crop_width src) (crop_height src))"

text \<open>
  The promise of the progressive \<open>getCroppedCanvas\<close>: rejected when the image does not
  load, resolved with the final canvas, or never settled. The crop is copied at its own
  size, halved while the loop runs, and the last canvas is drawn onto a canvas of the
  target size. Each canvas of the chain is once the source of a \<open>drawImage\<close>, which throws
  when that canvas has a dimension of 0; the exception leaves \<open>onload\<close>, which has no
  handler, and the promise stays pending.
\<close>

datatype 'a promise = Rejected error | Resolved 'a | Pending

definition zeroSized :: "canvas \<Rightarrow> bool" where
  "zeroSized c = (cv_width c = 0 \<or> cv_height c = 0)"

definition getCroppedCanvas_progressive ::
  "image option \<Rightarrow> crop_rect option \<Rightarrow> target_size \<Rightarrow> canvas promise" where
  "getCroppedCanvas_progressive loaded cropData targetSize =
     (case loaded of
        None \<Rightarrow> Rejected LoadError
      | Some img \<Rightarrow>
          if list_ex (\<lambda>(c, w, h). zeroSized c)
               ((cropCanvas img (sourceRect img cropData targetSize),
                 crop_width (sourceRect img cropData targetSize),
                 crop_height (sourceRect img cropData targetSize))
                # halving targetSize (cropCanvas img (sourceRect img cropData targetSize))
                    (crop_width (sourceRect img cropData targetSize))
                    (crop_height (sourceRect img cropData targetSize)))
          then Pending
          else
            (case finalState targetSize img (sourceRect img cropData targetSize) of
               (currentCanvas, currentWidth, currentHeight) \<Rightarrow>
                 Resolved (Canvas (int (ts_w targetSize)) (int (ts_h targetSize))
                   (Cnv currentCanvas)
                   \<lparr>crop_x = 0, crop_y = 0,
                    crop_width = currentWidth, crop_height = currentHeight\<rparr>)))"

section \<open>Subject framing from pose keypoints\<close>

text \<open>
  The detector is the injected pose capability: on an image it throws, gives no value, or
  gives a list of poses; the keypoints of a pose may be missing, and reading them then
  throws. \<open>detector.reset()\<close> makes each call independent of the calls before it.
\<close>

record keypoint =
  kp_name :: string
  kp_x :: real
  kp_y :: real

datatype pose_result = Throws | NoValue | Poses "keypoint list option list"

type_synonym detector = "image \<Rightarrow> pose_result"

text \<open>The locals of \<open>getAutoCropRegion\<close>, each operation rounded.\<close>

definition shoulderCenterX :: "keypoint \<Rightarrow> keypoint \<Rightarrow> real" where
  "shoulderCenterX leftShoulder rightShoulder =
     binary64 (binary64 (kp_x leftShoulder + kp_x rightShoulder) / 2)"

definition shoulderCenterY :: "keypoint \<Rightarrow> keypoint \<Rightarrow> real" where
  "shoulderCenterY leftShoulder rightShoulder =
     binary64 (binary64 (kp_y leftShoulder + kp_y rightShoulder) / 2)"

definition cropAnchorY :: "keypoint \<Rightarrow> keypoint \<Rightarrow> keypoint \<Rightarrow> real" where
  "cropAnchorY nose leftShoulder rightShoulder =
     binary64 (binary64 (kp_y nose * 0.5)
               + binary64 (shoulderCenterY leftShoulder rightShoulder * 0.5))"

definition maxCropWidthFromX :: "image \<Rightarrow> keypoint \<Rightarrow> keypoint \<Rightarrow> real" where
  "maxCropWidthFromX img leftShoulder rightShoulder =
     binary64 (2 * min (shoulderCenterX leftShoulder rightShoulder)
                       (binary64 (real (img_width img)
                          - shoulderCenterX leftShoulder rightShoulder)))"

definition maxCropHeightFromY :: "image \<Rightarrow> keypoint \<Rightarrow> keypoint \<Rightarrow> keypoint \<Rightarrow> real" where
  "maxCropHeightFromY img nose leftShoulder rightShoulder =
     min (binary64 (cropAnchorY nose leftShoulder rightShoulder / binary64 0.55))
         (binary64 (binary64 (real (img_height img) - cropAnchorY nose leftShoulder rightShoulder)
                    / binary64 0.45))"

definition cropWidth :: "image \<Rightarrow> target_size \<Rightarrow> keypoint \<Rightarrow> keypoint \<Rightarrow> keypoint \<Rightarrow> real" where
  "cropWidth img targetSize nose leftShoulder rightShoulder =
     (if binary64 (maxCropWidthFromX img leftShoulder rightShoulder / targetAspect targetSize)
           \<le> maxCropHeightFromY img nose leftShoulder rightShoulder
      then maxCropWidthFromX img leftShoulder rightShoulder
      else binary64 (maxCropHeightFromY img nose leftShoulder rightShoulder
                     * targetAspect targetSize))"

definition cropHeight :: "image \<Rightarrow> target_size \<Rightarrow> keypoint \<Rightarrow> keypoint \<Rightarrow> keypoint \<Rightarrow> real" where
  "cropHeight img targetSize nose leftShoulder rightShoulder =
     (if binary64 (maxCropWidthFromX img leftShoulder rightShoulder / targetAspect targetSize)
           \<le> maxCropHeightFromY img nose leftShoulder rightShoulder
      then binary64 (maxCropWidthFromX img leftShoulder rightShoulder / targetAspect targetSize)
      else maxCropHeightFromY img nose leftShoulder rightShoulder)"

definition autoCropRect ::
  "image \<Rightarrow> target_size \<Rightarrow> keypoint \<Rightarrow> keypoint \<Rightarrow> keypoint \<Rightarrow> crop_rect" where
  "autoCropRect img targetSize nose leftShoulder rightShoulder =
     \<lparr>crop_x =
        max 0 (min (binary64 (shoulderCenterX leftShoulder rightShoulder
                      - binary64 (cropWidth img targetSize nose leftShoulder rightShoulder * 0.5)))
                   (binary64 (real (img_width img)
                      - cropWidth img targetSize nose leftShoulder rightShoulder))),
      crop_y =
        max 0 (min (binary64 (cropAnchorY nose leftShoulder rightShoulder
                      - binary64 (cropHeight img targetSize nose leftShoulder rightShoulder * 0.5)))
                   (binary64 (real (img_height img)
                      - cropHeight img targetSize nose leftShoulder rightShoulder))),
      crop_width = cropWidth img targetSize nose leftShoulder rightShoulder,
      crop_height = cropHeight img targetSize nose leftShoulder rightShoulder\<rparr>"

definition findKeypoint :: "keypoint list \<Rightarrow> string \<Rightarrow> keypoint option" where
  "findKeypoint keypoints name = find (\<lambda>k. kp_name k = name) keypoints"

text \<open>
  What the body of \<open>try\<close> computes from the detector's answer; every exception ends in the
  \<open>catch\<close>, which returns \<open>null\<close>.
\<close>

fun regionOfPoses :: "image \<Rightarrow> target_size \<Rightarrow> pose_result \<Rightarrow> crop_rect option" where
  "regionOfPoses img targetSize Throws = None"
| "regionOfPoses img targetSize NoValue = None"
| "regionOfPoses img targetSize (Poses []) = None"
| "regionOfPoses img targetSize (Poses (None # rest)) = None"
| "regionOfPoses img targetSize (Poses (Some keypoints # rest)) =
     (case findKeypoint keypoints ''nose'' of
        None \<Rightarrow> None
      | Some nose \<Rightarrow>
          (case findKeypoint keypoints ''left_shoulder'' of
             None \<Rightarrow> None
           | Some leftShoulder \<Rightarrow>
               (case findKeypoint keypoints ''right_shoulder'' of
                  None \<Rightarrow> None
                | Some rightShoulder \<Rightarrow>
                    Some (autoCropRect img targetSize nose leftShoulder rightShoulder))))"

text \<open>
  \<open>getAutoCropRegion\<close> returns the region together with the number of calls of
  \<open>estimatePoses\<close> it made.
\<close>

definition getAutoCropRegion ::
  "image \<Rightarrow> target_size \<Rightarrow> detector option \<Rightarrow> crop_rect option \<times> nat" where
  "getAutoCropRegion img targetSize det =
     (case det of
        None \<Rightarrow> (None, 0)
      | Some estimatePoses \<Rightarrow> (regionOfPoses img targetSize (estimatePoses img), 1))"

text \<open>\<open>getAutoCroppedCanvas\<close> never rejects: a failed load resolves to \<open>null\<close>.\<close>

definition getAutoCroppedCanvas ::
  "image option \<Rightarrow> target_size \<Rightarrow> detector option \<Rightarrow> canvas option \<times> nat" where
  "getAutoCroppedCanvas loaded targetSize det =
     (case loaded of
        None \<Rightarrow> (None, 0)
      | Some img \<Rightarrow>
          (case getAutoCropRegion img targetSize det of
             (Some region, calls) \<Rightarrow>
               (Some (Canvas (int (ts_w targetSize)) (int (ts_h targetSize)) (Img img)
                        \<lparr>crop_x = crop_x region, crop_y = crop_y region,
                         crop_width = crop_width region, crop_height = crop_height region\<rparr>),
                calls)
           | (None, calls) \<Rightarrow> (None, calls)))"

section \<open>Batch export\<close>

datatype model_status = Loading | Ready | Failed

record asset =
  file_name :: jsstring
  original :: "image option"
  img_type :: image_type
  cropData :: "crop_rect option"

text \<open>
  The canvas of one asset, as the \<open>try\<close> block of \<open>handleProcess\<close> obtains it, with the
  number of pose estimations made on the way.
\<close>

definition exportCanvas ::
  "asset \<Rightarrow> target_size \<Rightarrow> detector option \<Rightarrow> model_status \<Rightarrow> (error + canvas) \<times> nat" where
  "exportCanvas a targetSize det modelStatus =
     (if img_type a = Staff \<and> cropData a = None \<and> det \<noteq> None \<and> modelStatus = Ready then
        (case getAutoCroppedCanvas (original a) targetSize det of
           (Some c, calls) \<Rightarrow> (Inr c, calls)
         | (None, calls) \<Rightarrow> (getCroppedCanvas (original a) None targetSize, calls))
      else (getCroppedCanvas (original a) (cropData a) targetSize, 0))"

text \<open>
  The state the loop of \<open>handleProcess\<close> works on: the entries of the archive (a name
  and the JPEG blob of a canvas at a quality), the error banner (\<open>handleFileErrors\<close>
  replaces it), the progress counter and the number of pose estimations. \<open>zip.file\<close>
  adds an entry, or replaces the entry of the same name where it stands.
\<close>

datatype ui_error = ZipMissing | ProcessingError jsstring

record batch =
  zip_files :: "(jsstring \<times> canvas \<times> real) list"
  errors :: "ui_error list"
  progress :: nat
  pose_calls :: nat

definition zipFile ::
  "jsstring \<Rightarrow> canvas \<times> real \<Rightarrow> (jsstring \<times> canvas \<times> real) list
    \<Rightarrow> (jsstring \<times> canvas \<times> real) list" where
  "zipFile name blob files = AList.update name blob files"

definition processImage ::
  "media \<Rightarrow> real \<Rightarrow> detector option \<Rightarrow> model_status \<Rightarrow> batch \<Rightarrow> asset \<Rightarrow> batch" where
  "processImage m quality det modelStatus st a =
     (case RESIZE_DEFINITIONS m (img_type a) of
        None \<Rightarrow> st\<lparr>progress := progress st + 1\<rparr>
      | Some targetSize \<Rightarrow>
          (case exportCanvas a targetSize det modelStatus of
             (Inr c, calls) \<Rightarrow>
               st\<lparr>zip_files := zipFile (entryName (file_name a)) (c, quality) (zip_files st),
                  progress := progress st + 1,
                  pose_calls := pose_calls st + calls\<rparr>
           | (Inl err, calls) \<Rightarrow>
               st\<lparr>errors := [ProcessingError (file_name a)],
                  progress := progress st + 1,
                  pose_calls := pose_calls st + calls\<rparr>))"

definition handleProcess ::
  "bool \<Rightarrow> asset list \<Rightarrow> media \<Rightarrow> real \<Rightarrow> detector option \<Rightarrow> model_status \<Rightarrow> batch" where
  "handleProcess jszipLoaded imagesToProcess m quality det modelStatus =
     (if \<not> jszipLoaded then
        \<lparr>zip_files = [], errors = [ZipMissing], progress = 0, pose_calls = 0\<rparr>
      else
        foldl (processImage m quality det modelStatus)
          \<lparr>zip_files = [], errors = [], progress = 0, pose_calls = 0\<rparr> imagesToProcess)"

text \<open>
  An asset is exported when its type has a size under the medium and the promise of its
  canvas resolves.
\<close>

definition exported :: "media \<Rightarrow> detector option \<Rightarrow> model_status \<Rightarrow> asset \<Rightarrow> bool" where
  "exported m det modelStatus a =
     (case RESIZE_DEFINITIONS m (img_type a) of
        None \<Rightarrow> False
      | Some targetSize \<Rightarrow>
          (case fst (exportCanvas a targetSize det modelStatus) of
             Inl err \<Rightarrow> False
           | Inr c \<Rightarrow> True))"

definition emptyBatch :: batch where
  "emptyBatch = \<lparr>zip_files = [], errors = [], progress = 0, pose_calls = 0\<rparr>"

text \<open>
  The answers of the detector from which \<open>getAutoCropRegion\<close> derives no region: an
  exception, no value, no pose, a first pose without keypoints, or a first pose that lacks
  one of the three keypoints.
\<close>

definition lacksKeypoint :: "keypoint list \<Rightarrow> bool" where
  "lacksKeypoint keypoints =
     (findKeypoint keypoints ''nose'' = None \<or> findKeypoint keypoints ''left_shoulder'' = None
      \<or> findKeypoint keypoints ''right_shoulder'' = None)"

definition noEstimate :: "pose_result \<Rightarrow> bool" where
  "noEstimate r =
     (case r of
        Throws \<Rightarrow> True
      | NoValue \<Rightarrow> True
      | Poses [] \<Rightarrow> True
      | Poses (None # rest) \<Rightarrow> True
      | Poses (Some keypoints # rest) \<Rightarrow> lacksKeypoint keypoints)"

text \<open>
  The condition under which the loop of the progressive resampler makes one more
  iteration: the guard of the \<open>while\<close> holds and the \<open>break\<close> is not taken.
\<close>

definition continues :: "target_size \<Rightarrow> real \<Rightarrow> real \<Rightarrow> bool" where
  "continues targetSize currentWidth currentHeight =
     (currentWidth > real (ts_w targetSize) * 2 \<and> currentHeight > real (ts_h targetSize) * 2
      \<and> \<not> of_int \<lfloor>currentWidth / 2\<rfloor> < real (ts_w targetSize) * 1.5)"

text \<open>
  What one asset hands to the archive: nothing when its type has no size under the
  medium or its canvas is not obtained, otherwise its entry name with the blob of its
  canvas. \<open>failedAsset\<close> holds when the \<open>catch\<close> of the loop is reached.
\<close>

definition archived ::
  "media \<Rightarrow> real \<Rightarrow> detector option \<Rightarrow> model_status \<Rightarrow> asset
    \<Rightarrow> (jsstring \<times> canvas \<times> real) option" where
  "archived m quality det modelStatus a =
     (case RESIZE_DEFINITIONS m (img_type a) of
        None \<Rightarrow> None
      | Some targetSize \<Rightarrow>
          (case fst (exportCanvas a targetSize det modelStatus) of
             Inl err \<Rightarrow> None
           | Inr c \<Rightarrow> Some (entryName (file_name a), c, quality)))"


definition tinyImage :: image where
  "tinyImage = \<lparr>img_width = 1, img_height = 5, img_data = []\<rparr>"

section \<open>The crop invariant and the subject frame of the specification\<close>




text \<open>
  The bounds up to rounding: each of the four inequalities may fail by at most the
  \<open>2 powi (- 50)\<close> part of the dimension of the image it is about.
\<close>

definition nearlyInBounds :: "image \<Rightarrow> crop_rect \<Rightarrow> bool" where
  "nearlyInBounds img r =
     (- (real (img_width img) / 2 ^ 50) \<le> crop_x r
      \<and> - (real (img_height img) / 2 ^ 50) \<le> crop_y r
      \<and> crop_x r + crop_width r \<le> real (img_width img) + real (img_width img) / 2 ^ 50
      \<and> crop_y r + crop_height r \<le> real (img_height img) + real (img_height img) / 2 ^ 50)"

text \<open>
  The subject frame in the words of the specification, each operation rounded: the
  horizontal anchor is the midpoint of the shoulders, the vertical anchor blends the
  nose and the midpoint of the shoulders half and half, the largest width and height
  come from the distances of the anchors to the edges, the limiting one is found by
  comparing \<open>maxWidth / aspect\<close> with \<open>maxHeight\<close>, and the rectangle centred on the
  anchors is clamped into the image.
\<close>

definition clampInto :: "real \<Rightarrow> real \<Rightarrow> real \<Rightarrow> real" where
  "clampInto lo hi v = max lo (min v hi)"

definition subjectFrame :: "image \<Rightarrow> target_size \<Rightarrow> keypoint \<Rightarrow> keypoint \<Rightarrow> keypoint \<Rightarrow> crop_rect" where
  "subjectFrame img targetSize nose leftShoulder rightShoulder =
     (let aspect = binary64 (real (ts_w targetSize) / real (ts_h targetSize));
          anchorX = binary64 (binary64 (kp_x leftShoulder + kp_x rightShoulder) / 2);
          shoulderMidY = binary64 (binary64 (kp_y leftShoulder + kp_y rightShoulder) / 2);
          anchorY = binary64 (binary64 (0.5 * kp_y nose) + binary64 (0.5 * shoulderMidY));
          maxWidth = binary64 (2 * min anchorX (binary64 (real (img_width img) - anchorX)));
          maxHeight = min (binary64 (anchorY / binary64 0.55))
                          (binary64 (binary64 (real (img_height img) - anchorY) / binary64 0.45));
          w = (if binary64 (maxWidth / aspect) \<le> maxHeight then maxWidth
               else binary64 (maxHeight * aspect));
          h = (if binary64 (maxWidth / aspect) \<le> maxHeight then binary64 (maxWidth / aspect)
               else maxHeight)
      in \<lparr>crop_x = clampInto 0 (binary64 (real (img_width img) - w))
                    (binary64 (anchorX - binary64 (w / 2))),
          crop_y = clampInto 0 (binary64 (real (img_height img) - h))
                    (binary64 (anchorY - binary64 (h / 2))),
          crop_width = w, crop_height = h\<rparr>)"

section \<open>Sample inputs\<close>

definition sampleImage :: image where
  "sampleImage = \<lparr>img_width = 400, img_height = 300, img_data = []\<rparr>"

definition sampleCrop :: crop_rect where
  "sampleCrop = \<lparr>crop_x = 10, crop_y = 20, crop_width = 150, crop_height = 174\<rparr>"

definition sampleNose :: keypoint where
  "sampleNose = \<lparr>kp_name = ''nose'', kp_x = 150, kp_y = 100\<rparr>"

definition sampleLeft :: keypoint where
  "sampleLeft = \<lparr>kp_name = ''left_shoulder'', kp_x = 100, kp_y = 150\<rparr>"

definition sampleRight :: keypoint where
  "sampleRight = \<lparr>kp_name = ''right_shoulder'', kp_x = 200, kp_y = 150\<rparr>"

definition goodDetector :: detector where
  "goodDetector img = Poses [Some [sampleNose, sampleLeft, sampleRight]]"

definition noseOnlyDetector :: detector where
  "noseOnlyDetector img = Poses [Some [sampleNose]]"

definition sampleAsset :: "string \<Rightarrow> image option \<Rightarrow> image_type \<Rightarrow> crop_rect option \<Rightarrow> asset" where
  "sampleAsset name loaded t manual =
     \<lparr>file_name = units name, original = loaded, img_type = t, cropData = manual\<rparr>"

definition roundedCrop :: crop_rect where
  "roundedCrop = \<lparr>crop_x = 100, crop_y = 50, crop_width = 450, crop_height = 521\<rparr>"



definition bannerImage :: image where
  "bannerImage = \<lparr>img_width = 500, img_height = 160, img_data = []\<rparr>"

section \<open>The classifier\<close>

text \<open>\<open>js_includes\<close> is the occurrence of the key as a contiguous run of code units.\<close>

lemma startsWith_iff: "startsWith s k \<longleftrightarrow> (\<exists>q. s = k @ q)"
  by (induction s k rule: startsWith.induct) auto

lemma js_includes_iff: "js_includes s k \<longleftrightarrow> (\<exists>p q. s = p @ k @ q)"
proof (induction s)
  case Nil
  then show ?case by (simp add: startsWith_iff)
next
  case (Cons c cs)
  show ?case
  proof
    assume "js_includes (c # cs) k"
    then consider "startsWith (c # cs) k" | "js_includes cs k" by auto
    then show "\<exists>p q. c # cs = p @ k @ q"
    proof cases
      case 1
      then obtain q where "c # cs = k @ q" by (auto simp: startsWith_iff)
      then have "c # cs = [] @ k @ q" by simp
      then show ?thesis by blast
    next
      case 2
      with Cons.IH obtain p q where "cs = p @ k @ q" by blast
      then have "c # cs = (c # p) @ k @ q" by simp
      then show ?thesis by blast
    qed
  next
    assume "\<exists>p q. c # cs = p @ k @ q"
    then obtain p q where pq: "c # cs = p @ k @ q" by blast
    show "js_includes (c # cs) k"
    proof (cases p)
      case Nil
      with pq have "startsWith (c # cs) k" by (auto simp: startsWith_iff)
      then show ?thesis by simp
    next
      case (Cons a p')
      with pq have "cs = p' @ k @ q" by simp
      with Cons.IH have "js_includes cs k" by blast
      then show ?thesis by simp
    qed
  qed
qed

lemma toLowerCase_append: "toLowerCase (a @ b) = toLowerCase a @ toLowerCase b"
  by (simp add: toLowerCase_def)

lemma toLowerCase_lower_unit: "toLowerCase (lower_unit c) = lower_unit c"
  by (simp add: toLowerCase_def lower_unit_def)

lemma toLowerCase_idem: "toLowerCase (toLowerCase s) = toLowerCase s"
proof (induction s)
  case Nil
  show ?case by (simp add: toLowerCase_def)
next
  case (Cons c cs)
  have "toLowerCase (c # cs) = lower_unit c @ toLowerCase cs"
    by (simp add: toLowerCase_def)
  then show ?case
    using Cons.IH by (simp add: toLowerCase_append toLowerCase_lower_unit)
qed

lemma lower_upper_name: "toLowerCase (units ''STAFF_photo.jpg'') = units ''staff_photo.jpg''"
  by (simp add: toLowerCase_def units_def lower_unit_def)

lemma lower_lower_name: "toLowerCase (units ''staff_photo.jpg'') = units ''staff_photo.jpg''"
  by (simp add: toLowerCase_def units_def lower_unit_def)

lemma name_has_staff: "js_includes (units ''staff_photo.jpg'') (units ''staff'')"
  by (simp add: units_def)

lemma name_has_photo: "js_includes (units ''staff_photo.jpg'') (units ''photo'')"
  by (simp add: units_def)

text \<open>
  C8. The classifier is a total function of the file name alone and applies its rules in
  order on the lowered name: a name whose lowered form contains "staff" is Staff;
  otherwise one containing "logo" or the katakana synonym is Logo; every other name is
  Photo, with or without a photo keyword. Lowering the name first does not change the
  answer. "STAFF_photo.jpg" and "staff_photo.jpg" are both Staff, although the photo
  keyword "photo" occurs in the name as well.
\<close>

theorem detectImageType_rules:
  "(js_includes (toLowerCase n) (units ''staff'') \<longrightarrow> detectImageType n = Staff)
   \<and> (\<not> js_includes (toLowerCase n) (units ''staff'')
        \<and> (js_includes (toLowerCase n) (units ''logo'') \<or> js_includes (toLowerCase n) logo_kana)
       \<longrightarrow> detectImageType n = Logo)
   \<and> (\<not> js_includes (toLowerCase n) (units ''staff'')
        \<and> \<not> js_includes (toLowerCase n) (units ''logo'') \<and> \<not> js_includes (toLowerCase n) logo_kana
       \<longrightarrow> detectImageType n = Photo)
   \<and> detectImageType (toLowerCase n) = detectImageType n
   \<and> detectImageType (units ''STAFF_photo.jpg'') = Staff
   \<and> detectImageType (units ''staff_photo.jpg'') = Staff
   \<and> list_ex (js_includes (toLowerCase (units ''STAFF_photo.jpg''))) photo_keywords"
proof -
  have a: "detectImageType (toLowerCase n) = detectImageType n"
    by (simp add: detectImageType_def toLowerCase_idem)
  have b: "detectImageType (units ''STAFF_photo.jpg'') = Staff"
    by (simp add: detectImageType_def lower_upper_name name_has_staff)
  have c: "detectImageType (units ''staff_photo.jpg'') = Staff"
    by (simp add: detectImageType_def lower_lower_name name_has_staff)
  have d: "list_ex (js_includes (toLowerCase (units ''STAFF_photo.jpg''))) photo_keywords"
    by (simp add: photo_keywords_def lower_upper_name name_has_photo)
  show ?thesis
    using a b c d by (simp add: detectImageType_def)
qed

text \<open>The rules at the name "Shop_LOGO.png": no "staff", a "logo", hence Logo.\<close>

theorem detectImageType_rules_witness:
  "js_includes (toLowerCase (units ''Shop_LOGO.png'')) (units ''logo'')
   \<and> \<not> js_includes (toLowerCase (units ''Shop_LOGO.png'')) (units ''staff'')
   \<and> detectImageType (units ''Shop_LOGO.png'') = Logo"
proof -
  have l: "toLowerCase (units ''Shop_LOGO.png'') = units ''shop_logo.png''"
    by (simp add: toLowerCase_def units_def lower_unit_def)
  have i: "js_includes (units ''shop_logo.png'') (units ''logo'')"
    by (simp add: units_def)
  have s: "\<not> js_includes (units ''shop_logo.png'') (units ''staff'')"
    by (simp add: units_def)
  show ?thesis
    using detectImageType_rules [of "units ''Shop_LOGO.png''"] l i s by simp
qed

section \<open>Crop precedence and fallback\<close>

lemma sourceRect_manual: "sourceRect img (Some r) targetSize = r"
  by (simp add: sourceRect_def)

lemma exportCanvas_manual:
  "cropData a = Some r \<Longrightarrow>
   exportCanvas a targetSize det modelStatus = (getCroppedCanvas (original a) (Some r) targetSize, 0)"
  by (simp add: exportCanvas_def)

text \<open>
  C3. For an asset with a manual crop whose image loads, the exported canvas is drawn from
  exactly the manual rectangle, whatever the type of the asset, the detector and the state
  of the model; no pose estimation is made.
\<close>

theorem manual_crop_precedence:
  "cropData a = Some r \<Longrightarrow> original a = Some img \<Longrightarrow>
   exportCanvas a targetSize det modelStatus
     = (Inr (Canvas (int (ts_w targetSize)) (int (ts_h targetSize)) (Img img) r), 0)"
  by (simp add: exportCanvas_manual getCroppedCanvas_def sourceRect_manual)

text \<open>A Staff asset with a manual crop, a detector that would give a region, and a ready model.\<close>

theorem manual_crop_precedence_witness:
  "exportCanvas (sampleAsset ''staff.jpg'' (Some sampleImage) Staff (Some sampleCrop))
     \<lparr>ts_w = 150, ts_h = 174\<rparr> (Some goodDetector) Ready
   = (Inr (Canvas 150 174 (Img sampleImage) sampleCrop), 0)
   \<and> fst (getAutoCropRegion sampleImage \<lparr>ts_w = 150, ts_h = 174\<rparr> (Some goodDetector)) \<noteq> None"
proof -
  have r: "fst (getAutoCropRegion sampleImage \<lparr>ts_w = 150, ts_h = 174\<rparr> (Some goodDetector)) \<noteq> None"
    by (simp add: getAutoCropRegion_def goodDetector_def findKeypoint_def
        sampleNose_def sampleLeft_def sampleRight_def)
  show ?thesis
    using manual_crop_precedence
      [of "sampleAsset ''staff.jpg'' (Some sampleImage) Staff (Some sampleCrop)"
          sampleCrop sampleImage "\<lparr>ts_w = 150, ts_h = 174\<rparr>" "Some goodDetector" Ready] r
    by (simp add: sampleAsset_def)
qed

lemma regionOfPoses_none: "noEstimate r \<Longrightarrow> regionOfPoses img targetSize r = None"
  by (cases "(img, targetSize, r)" rule: regionOfPoses.cases)
     (auto simp: noEstimate_def lacksKeypoint_def split: option.splits)

text \<open>
  C4. For a Staff asset without a manual crop, when the detector throws, returns nothing,
  returns no pose, or returns a pose without nose, left shoulder or right shoulder, the
  estimator yields no region (as a value: nothing is thrown) and the exported canvas is
  the one the centred cover crop gives for the same image and target size, which is also
  what the export gives without any detector.
\<close>

theorem pose_failure_falls_back:
  assumes "img_type a = Staff" and "cropData a = None" and "original a = Some img"
    and "noEstimate (estimatePoses img)"
  shows "fst (getAutoCropRegion img targetSize (Some estimatePoses)) = None
    \<and> fst (exportCanvas a targetSize (Some estimatePoses) modelStatus)
        = getCroppedCanvas (original a) None targetSize
    \<and> fst (exportCanvas a targetSize (Some estimatePoses) modelStatus)
        = fst (exportCanvas a targetSize None modelStatus)"
  using assms
  by (simp add: exportCanvas_def getAutoCroppedCanvas_def getAutoCropRegion_def
      regionOfPoses_none)

text \<open>A Staff asset whose detector finds a nose and no shoulders.\<close>

theorem pose_failure_falls_back_witness:
  "noEstimate (noseOnlyDetector sampleImage)
   \<and> fst (exportCanvas (sampleAsset ''staff.jpg'' (Some sampleImage) Staff None)
        \<lparr>ts_w = 150, ts_h = 174\<rparr> (Some noseOnlyDetector) Ready)
     = getCroppedCanvas (Some sampleImage) None \<lparr>ts_w = 150, ts_h = 174\<rparr>"
proof -
  have n: "noEstimate (noseOnlyDetector sampleImage)"
    by (simp add: noEstimate_def noseOnlyDetector_def lacksKeypoint_def findKeypoint_def
        sampleNose_def)
  show ?thesis
    using pose_failure_falls_back
      [of "sampleAsset ''staff.jpg'' (Some sampleImage) Staff None" sampleImage
          noseOnlyDetector "\<lparr>ts_w = 150, ts_h = 174\<rparr>" Ready] n
    by (simp add: sampleAsset_def)
qed

section \<open>Output size and batch export\<close>

lemma getCroppedCanvas_size:
  "getCroppedCanvas (Some img) manual targetSize = Inr c \<Longrightarrow>
   cv_width c = int (ts_w targetSize) \<and> cv_height c = int (ts_h targetSize)"
  by (auto simp: getCroppedCanvas_def)

lemma getAutoCroppedCanvas_size:
  "getAutoCroppedCanvas loaded targetSize det = (Some c, n) \<Longrightarrow>
   cv_width c = int (ts_w targetSize) \<and> cv_height c = int (ts_h targetSize)"
  by (auto simp: getAutoCroppedCanvas_def split: option.splits prod.splits)

lemma exportCanvas_resolves:
  assumes "original a = Some img"
  shows "\<exists>c. fst (exportCanvas a targetSize det modelStatus) = Inr c
    \<and> cv_width c = int (ts_w targetSize) \<and> cv_height c = int (ts_h targetSize)"
proof (cases "getAutoCroppedCanvas (original a) targetSize det")
  case (Pair oc n)
  show ?thesis
  proof (cases oc)
    case None
    with Pair assms show ?thesis
      by (simp add: exportCanvas_def getCroppedCanvas_def)
  next
    case (Some c)
    with Pair have "cv_width c = int (ts_w targetSize) \<and> cv_height c = int (ts_h targetSize)"
      using getAutoCroppedCanvas_size by blast
    with Pair Some assms show ?thesis
      by (simp add: exportCanvas_def getCroppedCanvas_def)
  qed
qed



lemma handleProcess_single:
  "handleProcess True [a] m q det ms = processImage m q det ms emptyBatch a"
  by (simp add: handleProcess_def emptyBatch_def)

lemma single_zip_exported:
  "exported m det ms a \<Longrightarrow>
   \<exists>c. zip_files (handleProcess True [a] m q det ms) = [(entryName (file_name a), c, q)]"
  by (auto simp: handleProcess_single processImage_def emptyBatch_def exported_def zipFile_def
      split: option.splits prod.splits sum.splits)

lemma single_zip_not_exported:
  "\<not> exported m det ms a \<Longrightarrow> zip_files (handleProcess True [a] m q det ms) = []"
  by (auto simp: handleProcess_single processImage_def emptyBatch_def exported_def zipFile_def
      split: option.splits prod.splits sum.splits)

lemma not_exported_unloaded: "original a = None \<Longrightarrow> \<not> exported m det ms a"
  by (simp add: exported_def exportCanvas_def getAutoCroppedCanvas_def getCroppedCanvas_def
      split: option.splits)

text \<open>
  C6. The table gives 660 x 440, 150 x 174 and 330 x 220 for Photo, Staff and Logo under
  EPARK and no size for Logo under PeakManager. A Logo asset whose image loads is exported
  under EPARK as one archive entry with a 330 x 220 canvas and no error; under PeakManager
  a Logo asset is skipped: no entry, no error, the progress counter advanced.
\<close>

theorem logo_by_profile:
  "RESIZE_DEFINITIONS EPARK Photo = Some \<lparr>ts_w = 660, ts_h = 440\<rparr>
   \<and> RESIZE_DEFINITIONS EPARK Staff = Some \<lparr>ts_w = 150, ts_h = 174\<rparr>
   \<and> RESIZE_DEFINITIONS EPARK Logo = Some \<lparr>ts_w = 330, ts_h = 220\<rparr>
   \<and> RESIZE_DEFINITIONS PeakManager Logo = None
   \<and> (img_type a = Logo \<and> original a = Some img \<longrightarrow>
        (\<exists>c. handleProcess True [a] EPARK q det ms
                = \<lparr>zip_files = [(entryName (file_name a), c, q)], errors = [],
                   progress = 1, pose_calls = 0\<rparr>
              \<and> cv_width c = 330 \<and> cv_height c = 220))
   \<and> (img_type a = Logo \<longrightarrow>
        handleProcess True [a] PeakManager q det ms
          = \<lparr>zip_files = [], errors = [], progress = 1, pose_calls = 0\<rparr>)"
  by (simp add: handleProcess_def processImage_def exportCanvas_def getCroppedCanvas_def
      zipFile_def)

text \<open>The asset "logo.png" under both media.\<close>

theorem logo_by_profile_witness:
  "(\<exists>c. handleProcess True [sampleAsset ''logo.png'' (Some sampleImage) Logo None] EPARK (9 / 10)
          None Loading
        = \<lparr>zip_files = [(units ''logo.jpg'', c, 9 / 10)], errors = [],
           progress = 1, pose_calls = 0\<rparr>
        \<and> cv_width c = 330 \<and> cv_height c = 220)
   \<and> handleProcess True [sampleAsset ''logo.png'' (Some sampleImage) Logo None] PeakManager (9 / 10)
        None Loading
     = \<lparr>zip_files = [], errors = [], progress = 1, pose_calls = 0\<rparr>"
proof -
  have n: "entryName (units ''logo.png'') = units ''logo.jpg''"
    by (simp add: entryName_def fileNameWithoutExt_def substring0_def units_def dot_def)
  show ?thesis
    using logo_by_profile
      [of "sampleAsset ''logo.png'' (Some sampleImage) Logo None" sampleImage "9 / 10" None Loading] n
    by (simp add: sampleAsset_def)
qed

section \<open>Archive entry names\<close>

lemma lastIndexOf_ge: "- 1 \<le> lastIndexOf xs c"
  by (induction xs) auto

lemma lastIndexOf_absent: "c \<notin> set xs \<Longrightarrow> lastIndexOf xs c = - 1"
  by (induction xs) auto

lemma lastIndexOf_last: "c \<notin> set post \<Longrightarrow> lastIndexOf (pre @ c # post) c = int (length pre)"
  by (induction pre) (auto simp: lastIndexOf_absent)

text \<open>
  C10. The entry name of an asset is its file name with \<open>.jpg\<close> appended when the name has
  no dot or its only dot is the first character, and the part before the last dot with
  \<open>.jpg\<close> appended for every other name; the stem before \<open>.jpg\<close> is never empty for a
  file name that is not empty. An exported asset enters the archive under the entry name
  of its file name.
\<close>

theorem entryName_stem:
  "(dot \<notin> set name \<or> (\<exists>rest. name = dot # rest \<and> dot \<notin> set rest)
      \<longrightarrow> entryName name = name @ units ''.jpg'')
   \<and> (\<forall>pre post. name = pre @ dot # post \<and> dot \<notin> set post \<and> pre \<noteq> []
      \<longrightarrow> entryName name = pre @ units ''.jpg'')
   \<and> (name \<noteq> [] \<longrightarrow> fileNameWithoutExt name \<noteq> [])
   \<and> (exported m det ms a \<longrightarrow>
        (\<exists>c. zip_files (handleProcess True [a] m q det ms) = [(entryName (file_name a), c, q)]))"
proof (intro conjI impI allI)
  assume "dot \<notin> set name \<or> (\<exists>rest. name = dot # rest \<and> dot \<notin> set rest)"
  then show "entryName name = name @ units ''.jpg''"
  proof
    assume "dot \<notin> set name"
    then show ?thesis
      by (simp add: entryName_def fileNameWithoutExt_def substring0_def lastIndexOf_absent)
  next
    assume "\<exists>rest. name = dot # rest \<and> dot \<notin> set rest"
    then obtain rest where "name = [] @ dot # rest" "dot \<notin> set rest" by auto
    then have "lastIndexOf name dot = 0"
      using lastIndexOf_last [of dot rest "[]"] by simp
    then show ?thesis
      by (simp add: entryName_def fileNameWithoutExt_def substring0_def)
  qed
next
  fix pre post
  assume h: "name = pre @ dot # post \<and> dot \<notin> set post \<and> pre \<noteq> []"
  then have "lastIndexOf name dot = int (length pre)"
    by (simp add: lastIndexOf_last)
  with h show "entryName name = pre @ units ''.jpg''"
    by (simp add: entryName_def fileNameWithoutExt_def substring0_def)
next
  assume "name \<noteq> []"
  then show "fileNameWithoutExt name \<noteq> []"
    by (simp add: fileNameWithoutExt_def)
next
  assume "exported m det ms a"
  then show "\<exists>c. zip_files (handleProcess True [a] m q det ms) = [(entryName (file_name a), c, q)]"
    by (rule single_zip_exported)
qed

text \<open>The names "photo", ".env" and "a.b.png".\<close>

theorem entryName_stem_witness:
  "entryName (units ''photo'') = units ''photo.jpg''
   \<and> entryName (units ''.env'') = units ''.env.jpg''
   \<and> entryName (units ''a.b.png'') = units ''a.b.jpg''
   \<and> fileNameWithoutExt (units ''.env'') \<noteq> []
   \<and> (\<exists>c. zip_files (handleProcess True [sampleAsset ''photo'' (Some sampleImage) Photo None]
                      EPARK (9 / 10) None Loading)
          = [(units ''photo.jpg'', c, 9 / 10)])"
proof -
  have a: "dot \<notin> set (units ''photo'')"
    by (simp add: units_def dot_def)
  have b: "units ''.env'' = dot # units ''env'' \<and> dot \<notin> set (units ''env'')"
    by (simp add: units_def dot_def)
  have c: "units ''a.b.png'' = units ''a.b'' @ dot # units ''png'' \<and> dot \<notin> set (units ''png'')
           \<and> units ''a.b'' \<noteq> []"
    by (simp add: units_def dot_def)
  have d: "units ''.env'' \<noteq> []"
    by (simp add: units_def)
  have e: "units ''photo'' @ units ''.jpg'' = units ''photo.jpg''"
      "units ''.env'' @ units ''.jpg'' = units ''.env.jpg''"
      "units ''a.b'' @ units ''.jpg'' = units ''a.b.jpg''"
    by (simp_all add: units_def)
  from entryName_stem [of "units ''photo''"] a have 1: "entryName (units ''photo'') = units ''photo.jpg''"
    using e by simp
  from entryName_stem [of "units ''.env''"] b have 2: "entryName (units ''.env'') = units ''.env.jpg''"
    using e by metis
  from entryName_stem [of "units ''a.b.png''"] c have 3: "entryName (units ''a.b.png'') = units ''a.b.jpg''"
    using e by metis
  from entryName_stem [of "units ''.env''"] d have 4: "fileNameWithoutExt (units ''.env'') \<noteq> []"
    by blast
  have x: "exported EPARK None Loading (sampleAsset ''photo'' (Some sampleImage) Photo None)"
    by (simp add: exported_def exportCanvas_def getCroppedCanvas_def sampleAsset_def)
  have f: "file_name (sampleAsset ''photo'' (Some sampleImage) Photo None) = units ''photo''"
    by (simp add: sampleAsset_def)
  from entryName_stem [of "units ''photo''" EPARK None Loading
      "sampleAsset ''photo'' (Some sampleImage) Photo None" "9 / 10"] x
  have "\<exists>c. zip_files (handleProcess True [sampleAsset ''photo'' (Some sampleImage) Photo None]
                      EPARK (9 / 10) None Loading)
          = [(entryName (file_name (sampleAsset ''photo'' (Some sampleImage) Photo None)), c, 9 / 10)]"
    by blast
  then have 5: "\<exists>c. zip_files (handleProcess True [sampleAsset ''photo'' (Some sampleImage) Photo None]
                      EPARK (9 / 10) None Loading)
          = [(units ''photo.jpg'', c, 9 / 10)]"
    using 1 f by simp
  from 1 2 3 4 5 show ?thesis by simp
qed

section \<open>The halving loop\<close>

lemma halving_unfold:
  "halving ts cur cw ch =
     (if continues ts cw ch then
        (Canvas \<lfloor>cw / 2\<rfloor> \<lfloor>ch / 2\<rfloor> (Cnv cur)
           \<lparr>crop_x = 0, crop_y = 0, crop_width = cw, crop_height = ch\<rparr>,
         of_int \<lfloor>cw / 2\<rfloor>, of_int \<lfloor>ch / 2\<rfloor>)
        # halving ts
            (Canvas \<lfloor>cw / 2\<rfloor> \<lfloor>ch / 2\<rfloor> (Cnv cur)
               \<lparr>crop_x = 0, crop_y = 0, crop_width = cw, crop_height = ch\<rparr>)
            (of_int \<lfloor>cw / 2\<rfloor>) (of_int \<lfloor>ch / 2\<rfloor>)
      else [])"
  by (subst halving.simps) (simp add: continues_def)

lemma half_height_ge:
  assumes "real n * 2 < ch"
  shows "real n \<le> of_int \<lfloor>ch / 2\<rfloor>"
proof -
  have "real n < ch / 2" using assms by simp
  then have "real_of_int (int n) < ch / 2" by simp
  then have "int n \<le> \<lfloor>ch / 2\<rfloor>" by (simp add: le_floor_iff)
  then have "real_of_int (int n) \<le> of_int \<lfloor>ch / 2\<rfloor>" by (simp only: of_int_le_iff)
  then show ?thesis by simp
qed

lemma halving_steps:
  "(c, w, h) \<in> set (halving ts cur cw ch) \<Longrightarrow>
   real (ts_w ts) * 1.5 \<le> w \<and> real (ts_h ts) \<le> h
   \<and> of_int (cv_width c) = w \<and> of_int (cv_height c) = h"
proof (induction ts cur cw ch rule: halving.induct)
  case (1 ts cur cw ch)
  show ?case
  proof (cases "continues ts cw ch")
    case False
    with "1.prems" show ?thesis
      by (subst (asm) halving_unfold) simp
  next
    case True
    let ?c = "Canvas \<lfloor>cw / 2\<rfloor> \<lfloor>ch / 2\<rfloor> (Cnv cur)
               \<lparr>crop_x = 0, crop_y = 0, crop_width = cw, crop_height = ch\<rparr>"
    from "1.prems" True have
      "(c, w, h) = (?c, of_int \<lfloor>cw / 2\<rfloor>, of_int \<lfloor>ch / 2\<rfloor>)
       \<or> (c, w, h) \<in> set (halving ts ?c (of_int \<lfloor>cw / 2\<rfloor>) (of_int \<lfloor>ch / 2\<rfloor>))"
      by (subst (asm) halving_unfold) simp
    then show ?thesis
    proof
      assume e: "(c, w, h) = (?c, of_int \<lfloor>cw / 2\<rfloor>, of_int \<lfloor>ch / 2\<rfloor>)"
      from True have "real (ts_h ts) \<le> of_int \<lfloor>ch / 2\<rfloor>"
        by (simp add: continues_def half_height_ge)
      with e True show ?thesis
        by (simp add: continues_def)
    next
      assume "(c, w, h) \<in> set (halving ts ?c (of_int \<lfloor>cw / 2\<rfloor>) (of_int \<lfloor>ch / 2\<rfloor>))"
      with True "1.IH" show ?thesis
        by (simp add: continues_def)
    qed
  qed
qed

lemma halving_last:
  "(fc, fw, fh) = last ((cur, cw, ch) # halving ts cur cw ch) \<Longrightarrow> \<not> continues ts fw fh"
proof (induction ts cur cw ch rule: halving.induct)
  case (1 ts cur cw ch)
  show ?case
  proof (cases "continues ts cw ch")
    case False
    with "1.prems" show ?thesis
      by (subst (asm) halving_unfold) simp
  next
    case True
    let ?c = "Canvas \<lfloor>cw / 2\<rfloor> \<lfloor>ch / 2\<rfloor> (Cnv cur)
               \<lparr>crop_x = 0, crop_y = 0, crop_width = cw, crop_height = ch\<rparr>"
    from "1.prems" True have
      "(fc, fw, fh) = last ((?c, of_int \<lfloor>cw / 2\<rfloor>, of_int \<lfloor>ch / 2\<rfloor>)
          # halving ts ?c (of_int \<lfloor>cw / 2\<rfloor>) (of_int \<lfloor>ch / 2\<rfloor>))"
      by (subst (asm) halving_unfold) simp
    with True "1.IH" show ?thesis
      by (simp add: continues_def)
  qed
qed

text \<open>
  C2, as the loop is written: an iteration is made exactly when both current dimensions
  exceed twice the target and the floored half of the width is at least 1.5 times the
  target width. Every intermediate canvas has a width of at least 1.5 times the target
  width and a height of at least the target height, and the dimensions the loop ends with
  allow no further iteration.
\<close>

theorem halving_bounds:
  "(\<forall>(c, w, h) \<in> set (halving ts cur cw ch).
      real (ts_w ts) * 1.5 \<le> w \<and> real (ts_h ts) \<le> h
      \<and> of_int (cv_width c) = w \<and> of_int (cv_height c) = h)
   \<and> (halving ts cur cw ch \<noteq> [] \<longleftrightarrow> continues ts cw ch)
   \<and> \<not> continues ts (fst (snd (finalState ts img src))) (snd (snd (finalState ts img src)))"
proof -
  have a: "\<forall>(c, w, h) \<in> set (halving ts cur cw ch).
      real (ts_w ts) * 1.5 \<le> w \<and> real (ts_h ts) \<le> h
      \<and> of_int (cv_width c) = w \<and> of_int (cv_height c) = h"
    using halving_steps by blast
  have b: "halving ts cur cw ch \<noteq> [] \<longleftrightarrow> continues ts cw ch"
    by (subst halving_unfold) simp
  have c: "\<not> continues ts (fst (snd (finalState ts img src))) (snd (snd (finalState ts img src)))"
    using halving_last [of "fst (finalState ts img src)" "fst (snd (finalState ts img src))"
        "snd (snd (finalState ts img src))" "cropCanvas img src" "crop_width src" "crop_height src" ts]
    by (simp add: finalState_def)
  from a b c show ?thesis by blast
qed

lemma continues_rounded: "continues \<lparr>ts_w = 150, ts_h = 174\<rparr> 450 521"
  by (simp add: continues_def)

lemma stops_after_one: "\<not> continues \<lparr>ts_w = 150, ts_h = 174\<rparr> 225 260"
  by (simp add: continues_def)

text \<open>A crop of 450 x 521 for the target 150 x 174 is halved once.\<close>

theorem halving_bounds_witness:
  "continues \<lparr>ts_w = 150, ts_h = 174\<rparr> 450 521
   \<and> halving \<lparr>ts_w = 150, ts_h = 174\<rparr> (cropCanvas sampleImage roundedCrop) 450 521 \<noteq> []
   \<and> (Canvas 225 260 (Cnv (cropCanvas sampleImage roundedCrop))
         \<lparr>crop_x = 0, crop_y = 0, crop_width = 450, crop_height = 521\<rparr>, 225, 260)
       \<in> set (halving \<lparr>ts_w = 150, ts_h = 174\<rparr> (cropCanvas sampleImage roundedCrop) 450 521)
   \<and> real (ts_w \<lparr>ts_w = 150, ts_h = 174\<rparr>) * 1.5 \<le> 225
   \<and> real (ts_h \<lparr>ts_w = 150, ts_h = 174\<rparr>) \<le> 260"
proof -
  have m: "(Canvas 225 260 (Cnv (cropCanvas sampleImage roundedCrop))
         \<lparr>crop_x = 0, crop_y = 0, crop_width = 450, crop_height = 521\<rparr>, 225, 260)
       \<in> set (halving \<lparr>ts_w = 150, ts_h = 174\<rparr> (cropCanvas sampleImage roundedCrop) 450 521)"
    by (subst halving_unfold) (simp add: continues_rounded)
  show ?thesis
    using halving_bounds [of "\<lparr>ts_w = 150, ts_h = 174\<rparr>" "cropCanvas sampleImage roundedCrop" 450 521]
      continues_rounded m
    by fastforce
qed

text \<open>
  C2 as stated fails. The crop 450 x 521 (a crop box of aspect 150 : 174, its width and
  height rounded by the crop editor) gives for the target 150 x 174 the intermediate
  225 x 260, lower than 1.5 times the target height, 261. At 290 x 340 both dimensions
  exceed 1.5 times the target, and no halving is made.
\<close>

theorem halving_counterexample:
  "map snd (halving \<lparr>ts_w = 150, ts_h = 174\<rparr> (cropCanvas sampleImage roundedCrop) 450 521)
     = [(225, 260)]
   \<and> (260::real) < 174 * 1.5
   \<and> halving \<lparr>ts_w = 150, ts_h = 174\<rparr> (cropCanvas sampleImage roundedCrop) 290 340 = []
   \<and> (290::real) > 150 * 1.5 \<and> (340::real) > 174 * 1.5"
proof -
  have a: "map snd (halving \<lparr>ts_w = 150, ts_h = 174\<rparr> (cropCanvas sampleImage roundedCrop) 450 521)
     = [(225, 260)]"
    by (subst halving_unfold) (simp add: continues_rounded stops_after_one)
  have b: "halving \<lparr>ts_w = 150, ts_h = 174\<rparr> (cropCanvas sampleImage roundedCrop) 290 340 = []"
    by (subst halving_unfold) (simp add: continues_def)
  from a b show ?thesis by simp
qed

section \<open>The archive of a batch\<close>



lemma exported_archived: "exported m det ms a \<longleftrightarrow> archived m q det ms a \<noteq> None"
  by (simp add: exported_def archived_def split: option.splits sum.splits)












section \<open>Rounding\<close>

text \<open>
  \<open>expo\<close> brackets a positive number between two consecutive powers of two, and
  \<open>binary64\<close> differs from the exact value by at most the unit roundoff, relatively.
\<close>

lemma expo_bounds: "0 < x \<Longrightarrow> 2 powi expo x \<le> x \<and> x < 2 powi (expo x + 1)"
proof (induction x rule: expo.induct)
  case (1 x)
  show ?case
  proof (cases "2 \<le> x")
    case True
    with "1.prems" have e: "expo x = expo (x / 2) + 1"
      by (subst expo.simps) simp
    from True "1.prems" "1.IH"(1) have
      "2 powi expo (x / 2) \<le> x / 2 \<and> x / 2 < 2 powi (expo (x / 2) + 1)"
      by simp
    then show ?thesis
      unfolding e by (simp add: power_int_add)
  next
    case False
    show ?thesis
    proof (cases "x < 1")
      case True
      with "1.prems" False have e: "expo x = expo (x * 2) - 1"
        by (subst expo.simps) simp
      from True False "1.prems" "1.IH"(2) have
        "2 powi expo (x * 2) \<le> x * 2 \<and> x * 2 < 2 powi (expo (x * 2) + 1)"
        by simp
      then show ?thesis
        unfolding e by (simp add: power_int_add power_int_diff)
    next
      case ge: False
      with False "1.prems" have "expo x = 0"
        by (subst expo.simps) simp
      with False ge show ?thesis
        by simp
    qed
  qed
qed

lemma expo_unique:
  assumes "2 powi e \<le> x" and "x < 2 powi (e + 1)"
  shows "expo x = e"
proof -
  have pos: "0 < x"
    using assms(1) by (rule less_le_trans [OF zero_less_power_int, rotated]) simp
  note b = expo_bounds [OF pos]
  have "(2::real) powi e < 2 powi (expo x + 1)"
    using assms(1) b by linarith
  then have "e < expo x + 1"
    by (metis not_less one_le_numeral power_int_increasing)
  moreover have "(2::real) powi expo x < 2 powi (e + 1)"
    using assms(2) b by linarith
  then have "expo x < e + 1"
    by (metis not_less one_le_numeral power_int_increasing)
  ultimately show ?thesis by simp
qed

lemma rne_error: "\<bar>of_int (rne q) - q\<bar> \<le> 1 / 2"
  unfolding rne_def by (auto simp: abs_le_iff)

lemma rne_of_int: "rne (of_int k) = k"
  by (simp add: rne_def)

lemma rne_near:
  assumes "\<bar>q - of_int m\<bar> < 1 / 2"
  shows "rne q = m"
proof -
  have "\<bar>of_int (rne q) - q\<bar> \<le> 1 / 2" by (rule rne_error)
  with assms have "\<bar>real_of_int (rne q) - of_int m\<bar> < 1" by linarith
  then have "\<bar>real_of_int (rne q - m)\<bar> < 1" by simp
  then have "\<bar>rne q - m\<bar> < 1" by (metis of_int_abs of_int_less_1_iff)
  then show ?thesis by simp
qed

lemma binary64_0: "binary64 0 = 0"
  by (simp add: binary64_def)

lemma binary64_error: "\<bar>binary64 x - x\<bar> \<le> unit_roundoff * \<bar>x\<bar>"
proof (cases "x = 0")
  case True
  then show ?thesis by (simp add: binary64_0)
next
  case False
  define e where "e = expo \<bar>x\<bar>"
  define s :: real where "s = 2 powi (e - 52)"
  have spos: "0 < s" by (simp add: s_def)
  from False have "0 < \<bar>x\<bar>" by simp
  from expo_bounds [OF this] have lo: "2 powi e \<le> \<bar>x\<bar>"
    by (simp add: e_def)
  have b: "binary64 x = of_int (rne (x / s)) * s"
    using False by (simp add: binary64_def s_def e_def)
  have "\<bar>of_int (rne (x / s)) - x / s\<bar> \<le> 1 / 2" by (rule rne_error)
  then have "\<bar>of_int (rne (x / s)) - x / s\<bar> * s \<le> 1 / 2 * s"
    using spos by (simp only: mult_le_cancel_right_pos)
  moreover have "\<bar>of_int (rne (x / s)) - x / s\<bar> * s = \<bar>of_int (rne (x / s)) * s - x\<bar>"
  proof -
    have "\<bar>of_int (rne (x / s)) - x / s\<bar> * s = \<bar>(of_int (rne (x / s)) - x / s) * s\<bar>"
      using spos by (simp add: abs_mult)
    also have "(of_int (rne (x / s)) - x / s) * s = of_int (rne (x / s)) * s - x"
      using spos by (simp add: field_simps)
    finally show ?thesis .
  qed
  ultimately have err: "\<bar>binary64 x - x\<bar> \<le> s / 2"
    by (simp add: b)
  have "s / 2 = 2 powi e / 2 ^ 53"
    by (simp add: s_def power_int_diff)
  also have "\<dots> \<le> \<bar>x\<bar> / 2 ^ 53"
    using lo by (simp add: divide_right_mono)
  finally show ?thesis
    using err by (simp add: unit_roundoff_def)
qed

lemma binary64_eval:
  assumes "2 powi e \<le> \<bar>x\<bar>" and "\<bar>x\<bar> < 2 powi (e + 1)"
    and "\<bar>x / 2 powi (e - 52) - of_int m\<bar> < 1 / 2"
  shows "binary64 x = of_int m * 2 powi (e - 52)"
proof -
  have e: "expo \<bar>x\<bar> = e" using assms(1,2) by (rule expo_unique)
  have "0 < \<bar>x\<bar>"
    using assms(1) by (rule less_le_trans [OF zero_less_power_int, rotated]) simp
  then have "x \<noteq> 0" by simp
  then show ?thesis
    by (simp add: binary64_def e rne_near [OF assms(3)])
qed

lemma binary64_of_int:
  assumes "\<bar>n\<bar> < 2 ^ 53"
  shows "binary64 (of_int n) = of_int n"
proof (cases "n = 0")
  case True
  then show ?thesis by (simp add: binary64_0)
next
  case False
  define e where "e = expo \<bar>real_of_int n\<bar>"
  from False have pos: "0 < \<bar>real_of_int n\<bar>" by simp
  from expo_bounds [OF pos] have lo: "2 powi e \<le> \<bar>real_of_int n\<bar>"
    by (simp add: e_def)
  have "\<bar>real_of_int n\<bar> < 2 powi 53"
    using assms by (metis of_int_abs of_int_less_numeral_power_cancel_iff power_int_numeral)
  with lo have "(2::real) powi e < 2 powi 53" by linarith
  then have "e < 53"
    by (metis not_less one_le_numeral power_int_increasing)
  then have k: "0 \<le> 52 - e" by simp
  have "real_of_int n / 2 powi (e - 52) = of_int n * 2 powi (52 - e)"
    by (simp add: power_int_diff)
  also have "\<dots> = of_int n * 2 ^ nat (52 - e)"
    using k by (simp add: power_int_nonneg_exp)
  also have "\<dots> = of_int (n * 2 ^ nat (52 - e))"
    by simp
  finally have q: "real_of_int n / 2 powi (e - 52) = of_int (n * 2 ^ nat (52 - e))" .
  have "binary64 (of_int n) = of_int (rne (real_of_int n / 2 powi (e - 52))) * 2 powi (e - 52)"
    using False by (simp add: binary64_def e_def)
  also have "\<dots> = of_int (n * 2 ^ nat (52 - e)) * 2 powi (e - 52)"
    unfolding q by (simp only: rne_of_int)
  also have "\<dots> = real_of_int n / 2 powi (e - 52) * 2 powi (e - 52)"
    by (simp only: q)
  also have "\<dots> = of_int n"
    by simp
  finally show ?thesis .
qed

lemma unit_roundoff_pos: "0 < unit_roundoff"
  by (simp add: unit_roundoff_def)

lemma binary64_upper: "0 \<le> x \<Longrightarrow> binary64 x \<le> x * (1 + unit_roundoff)"
  using binary64_error [of x] by (simp add: algebra_simps abs_le_iff)

lemma binary64_lower: "0 \<le> x \<Longrightarrow> x * (1 - unit_roundoff) \<le> binary64 x"
  using binary64_error [of x] by (simp add: algebra_simps abs_le_iff)

lemma binary64_pos: "0 < x \<Longrightarrow> 0 < binary64 x"
proof -
  assume x: "0 < x"
  have "unit_roundoff < 1" by (simp add: unit_roundoff_def)
  with x have "0 < x * (1 - unit_roundoff)" by simp
  with binary64_lower [of x] x show ?thesis by simp
qed

lemma binary64_nonpos: "x \<le> 0 \<Longrightarrow> binary64 x \<le> 0"
proof -
  assume x: "x \<le> 0"
  have "unit_roundoff < 1" by (simp add: unit_roundoff_def)
  with x have "x * (1 - unit_roundoff) \<le> 0"
    by (simp add: mult_nonpos_nonneg)
  moreover have "binary64 x \<le> x + unit_roundoff * \<bar>x\<bar>"
    using binary64_error [of x] by (simp add: abs_le_iff)
  ultimately show ?thesis
    using x by (simp add: algebra_simps)
qed

lemma binary64_less: "0 < x \<Longrightarrow> binary64 x < x * (9 / 8)"
proof -
  assume x: "0 < x"
  have "1 + unit_roundoff < 9 / 8" by (simp add: unit_roundoff_def)
  with x have "x * (1 + unit_roundoff) < x * (9 / 8)"
    by (simp only: mult_less_cancel_left_pos)
  moreover have "binary64 x \<le> x * (1 + unit_roundoff)"
    using x by (simp only: binary64_upper less_imp_le)
  ultimately show ?thesis
    by (rule le_less_trans [rotated])
qed

lemma aspect_660_440: "targetAspect \<lparr>ts_w = 660, ts_h = 440\<rparr> = 3 / 2"
proof -
  have "binary64 (of_int 3 / 2) = 3 / 2"
  proof -
    have a: "2 powi 0 \<le> \<bar>3 / 2 :: real\<bar>" by simp
    have b: "\<bar>3 / 2 :: real\<bar> < 2 powi (0 + 1)" by simp
    have c: "\<bar>(3 / 2 :: real) / 2 powi (0 - 52) - of_int 6755399441055744\<bar> < 1 / 2"
      by (simp add: power_int_minus)
    from binary64_eval [OF a b c] show ?thesis
      by (simp add: power_int_minus)
  qed
  then show ?thesis
    by (simp add: targetAspect_def)
qed

text \<open>
  C7 fails on the progressive resampler. A Photo image of 1 x 5 pixels under EPARK has the
  centred cover crop 1 x 0.67; the crop canvas gets the height 0, the final \<open>drawImage\<close>
  from it throws, and the promise stays pending: no raster is returned. The single-step
  \<open>getCroppedCanvas\<close> returns a 660 x 440 raster for the same image.
\<close>

theorem progressive_never_settles:
  "RESIZE_DEFINITIONS EPARK Photo = Some \<lparr>ts_w = 660, ts_h = 440\<rparr>
   \<and> getCroppedCanvas_progressive (Some tinyImage) None \<lparr>ts_w = 660, ts_h = 440\<rparr> = Pending
   \<and> getCroppedCanvas (Some tinyImage) None \<lparr>ts_w = 660, ts_h = 440\<rparr>
       = Inr (Canvas 660 440 (Img tinyImage)
           (sourceRect tinyImage None \<lparr>ts_w = 660, ts_h = 440\<rparr>))"
proof -
  let ?ts = "\<lparr>ts_w = 660, ts_h = 440\<rparr>"
  have "binary64 (1 / 5) < 1 / 5 * (9 / 8)"
    by (rule binary64_less) simp
  then have nw: "\<not> imageWider tinyImage ?ts"
    by (simp add: imageWider_def tinyImage_def aspect_660_440)
  have h0: "0 < binary64 (2 / 3)"
    by (rule binary64_pos) simp
  have "binary64 (2 / 3) < 2 / 3 * (9 / 8)"
    by (rule binary64_less) simp
  then have h1: "binary64 (2 / 3) < 1"
    by simp
  have src: "sourceRect tinyImage None ?ts
      = \<lparr>crop_x = 0, crop_y = binary64 (binary64 (5 - binary64 (2 / 3)) / 2),
         crop_width = 1, crop_height = binary64 (2 / 3)\<rparr>"
    using nw by (simp add: sourceRect_def tinyImage_def aspect_660_440)
  from h0 h1 have "\<lfloor>binary64 (2 / 3)\<rfloor> = 0"
    by (simp add: floor_eq_iff)
  with h0 have z: "zeroSized (cropCanvas tinyImage (sourceRect tinyImage None ?ts))"
    by (simp add: src zeroSized_def cropCanvas_def canvasDim_def)
  then have "getCroppedCanvas_progressive (Some tinyImage) None ?ts = Pending"
    by (simp add: getCroppedCanvas_progressive_def del: halving.simps)
  then show ?thesis
    by (simp add: getCroppedCanvas_def)
qed

lemma progressive_resolved_size:
  "getCroppedCanvas_progressive loaded manual targetSize = Resolved c \<Longrightarrow>
   cv_width c = int (ts_w targetSize) \<and> cv_height c = int (ts_h targetSize)"
  by (auto simp: getCroppedCanvas_progressive_def simp del: halving.simps
      split: option.splits if_splits prod.splits)

section \<open>Rounding errors of quotients and products\<close>

lemma unit_roundoff_small: "unit_roundoff \<le> 1 / 8"
  by (simp add: unit_roundoff_def)

lemma binary64_abs_upper: "0 \<le> x \<Longrightarrow> \<bar>binary64 x - x\<bar> \<le> unit_roundoff * x"
  using binary64_error [of x] by simp

text \<open>A rounded quotient and a rounded product, read back as a ratio.\<close>

lemma div_round_ratio:
  assumes p: "0 < p" and a: "0 < a"
  shows "0 < binary64 (p / a)
    \<and> \<bar>p / binary64 (p / a) - a\<bar> \<le> 2 * unit_roundoff * a"
proof -
  define q where "q = p / a"
  define h where "h = binary64 q"
  have q: "0 < q" using p a by (simp add: q_def)
  have u0: "0 < unit_roundoff" by (rule unit_roundoff_pos)
  have u8: "unit_roundoff \<le> 1 / 8" by (rule unit_roundoff_small)
  have err: "\<bar>h - q\<bar> \<le> unit_roundoff * q"
    unfolding h_def using q by (simp add: binary64_abs_upper)
  have "unit_roundoff * q \<le> 1 / 8 * q"
    using u8 q by (simp only: mult_le_cancel_right_pos)
  with err have hq: "7 / 8 * q \<le> h" by (simp add: abs_le_iff)
  with q have h: "0 < h" by linarith
  have pq: "p = a * q" using a by (simp add: q_def)
  have "p / h - a = a * (q - h) / h"
    using h by (simp add: pq field_simps)
  then have "\<bar>p / h - a\<bar> = a * \<bar>q - h\<bar> / h"
    using a h by (simp add: abs_mult)
  also have "\<dots> \<le> a * (unit_roundoff * q) / h"
  proof -
    have "\<bar>q - h\<bar> \<le> unit_roundoff * q" using err by (simp add: abs_minus_commute)
    then have "a * \<bar>q - h\<bar> \<le> a * (unit_roundoff * q)"
      using a by (simp only: mult_le_cancel_left_pos)
    then show ?thesis
      using h by (simp only: divide_right_mono less_imp_le)
  qed
  also have "\<dots> \<le> a * (unit_roundoff * q) / (7 / 8 * q)"
  proof -
    have "0 \<le> a * (unit_roundoff * q)" using a u0 q by simp
    moreover have "0 < 7 / 8 * q" using q by simp
    moreover have "0 < h * (7 / 8 * q)" using h q by simp
    ultimately show ?thesis
      using hq by (simp only: divide_left_mono)
  qed
  also have "\<dots> = 8 / 7 * unit_roundoff * a"
    using q by simp
  also have "\<dots> \<le> 2 * unit_roundoff * a"
    using a u0 by simp
  finally show ?thesis
    using h by (simp add: h_def q_def)
qed

lemma mul_round_ratio:
  assumes h: "0 < h" and a: "0 < a"
  shows "0 < binary64 (h * a) \<and> \<bar>binary64 (h * a) / h - a\<bar> \<le> unit_roundoff * a"
proof -
  have pos: "0 < h * a" using h a by simp
  then have w: "0 < binary64 (h * a)" by (rule binary64_pos)
  have err: "\<bar>binary64 (h * a) - h * a\<bar> \<le> unit_roundoff * (h * a)"
    using pos by (simp add: binary64_abs_upper)
  have "binary64 (h * a) / h - a = (binary64 (h * a) - h * a) / h"
    using h by (simp add: field_simps)
  then have "\<bar>binary64 (h * a) / h - a\<bar> = \<bar>binary64 (h * a) - h * a\<bar> / h"
    using h by simp
  also have "\<dots> \<le> unit_roundoff * (h * a) / h"
    using err h by (simp only: divide_right_mono less_imp_le)
  also have "\<dots> = unit_roundoff * a"
    using h by simp
  finally show ?thesis
    using w by simp
qed

text \<open>The rounded target aspect, and a ratio near it, against the exact aspect.\<close>

lemma targetAspect_near:
  assumes "0 < ts_w ts" and "0 < ts_h ts"
  shows "0 < targetAspect ts
    \<and> \<bar>targetAspect ts - real (ts_w ts) / real (ts_h ts)\<bar>
        \<le> unit_roundoff * (real (ts_w ts) / real (ts_h ts))"
proof -
  have t: "0 < real (ts_w ts) / real (ts_h ts)" using assms by simp
  then have "0 < binary64 (real (ts_w ts) / real (ts_h ts))" by (rule binary64_pos)
  moreover have "\<bar>binary64 (real (ts_w ts) / real (ts_h ts)) - real (ts_w ts) / real (ts_h ts)\<bar>
      \<le> unit_roundoff * (real (ts_w ts) / real (ts_h ts))"
    by (rule binary64_abs_upper [OF less_imp_le [OF t]])
  ultimately show ?thesis
    by (simp only: targetAspect_def)
qed

lemma ratio_near_exact:
  fixes r a t :: real
  assumes t: "0 < t" and a: "\<bar>a - t\<bar> \<le> unit_roundoff * t"
    and r: "\<bar>r - a\<bar> \<le> 2 * unit_roundoff * a"
  shows "\<bar>r - t\<bar> \<le> t / 2 ^ 51"
proof -
  have u0: "0 < unit_roundoff" by (rule unit_roundoff_pos)
  have u8: "unit_roundoff \<le> 1 / 8" by (rule unit_roundoff_small)
  have "unit_roundoff * t \<le> 1 / 8 * t"
    using u8 t by (simp only: mult_le_cancel_right_pos)
  with a have a2: "a \<le> 9 / 8 * t" by (simp add: abs_le_iff)
  have "2 * unit_roundoff * a \<le> 2 * unit_roundoff * (9 / 8 * t)"
  proof -
    have "0 < 2 * unit_roundoff" using u0 by simp
    with a2 show ?thesis by (simp only: mult_le_cancel_left_pos)
  qed
  with r have "\<bar>r - a\<bar> \<le> 9 / 4 * (unit_roundoff * t)" by simp
  with a have "\<bar>r - t\<bar> \<le> 13 / 4 * (unit_roundoff * t)" by linarith
  also have "\<dots> \<le> t / 2 ^ 51"
    using t by (simp add: unit_roundoff_def)
  finally show ?thesis .
qed

section \<open>Rounding errors of the centred cover crop\<close>

lemma roundoff_square: "(1 + unit_roundoff) * (1 + unit_roundoff) \<le> 1 + 3 * unit_roundoff"
  by (simp add: unit_roundoff_def)





section \<open>Rounding errors of the subject frame\<close>

lemma roundoff_quot4:
  "(1 + unit_roundoff) * (1 + unit_roundoff) \<le> (1 + 4 * unit_roundoff) * (1 - unit_roundoff)"
  by (simp add: unit_roundoff_def)

lemma roundoff_square3: "(1 + 3 * unit_roundoff) * (1 + 3 * unit_roundoff) \<le> 1 + 7 * unit_roundoff"
  by (simp add: unit_roundoff_def)

lemma binary64_pos_imp: "0 < binary64 x \<Longrightarrow> 0 < x"
  using binary64_nonpos [of x] by (cases "x \<le> 0") simp_all

lemma maxWidth_bound:
  fixes W cx :: real
  assumes pos: "0 < binary64 (2 * min cx (binary64 (W - cx)))"
  shows "0 < W \<and> binary64 (2 * min cx (binary64 (W - cx))) \<le> W + 3 * (unit_roundoff * W)"
proof -
  define u where "u = unit_roundoff"
  define m1 where "m1 = binary64 (W - cx)"
  define m where "m = min cx m1"
  have u0: "0 < u" and u8: "u \<le> 1 / 8"
    using unit_roundoff_pos unit_roundoff_small by (simp_all add: u_def)
  from pos have "0 < 2 * m" unfolding m_def m1_def by (rule binary64_pos_imp)
  then have cx: "0 < cx" and m1: "0 < m1" by (simp_all add: m_def)
  from m1 have d: "0 < W - cx" unfolding m1_def by (rule binary64_pos_imp)
  with cx have W: "0 < W" by simp
  have "m1 \<le> (W - cx) * (1 + u)"
    unfolding m1_def u_def by (rule binary64_upper) (use d in simp)
  also have "\<dots> = W * (1 + u) - cx * (1 + u)" by (simp add: algebra_simps)
  finally have "cx + m1 \<le> W * (1 + u) - cx * u" by (simp add: algebra_simps)
  moreover have "0 \<le> cx * u" using cx u0 by simp
  moreover have "2 * m \<le> cx + m1" by (simp add: m_def)
  ultimately have 1: "2 * m \<le> W * (1 + u)" by linarith
  have "binary64 (2 * m) \<le> 2 * m * (1 + u)"
    unfolding u_def by (rule binary64_upper) (use \<open>0 < 2 * m\<close> in simp)
  also have "\<dots> \<le> W * (1 + u) * (1 + u)"
    using 1 u0 by (simp add: mult_right_mono)
  also have "\<dots> = W * ((1 + u) * (1 + u))" by simp
  also have "\<dots> \<le> W * (1 + 3 * u)"
    using roundoff_square W by (simp only: u_def mult_le_cancel_left_pos)
  finally show ?thesis
    using W by (simp add: m_def m1_def u_def algebra_simps)
qed

lemma maxHeight_bound:
  fixes H ay :: real
  assumes pos: "0 < min (binary64 (ay / binary64 0.55))
                        (binary64 (binary64 (H - ay) / binary64 0.45))"
  shows "0 < H \<and> min (binary64 (ay / binary64 0.55))
                      (binary64 (binary64 (H - ay) / binary64 0.45))
                   \<le> H + 4 * (unit_roundoff * H)"
proof -
  define u where "u = unit_roundoff"
  define c55 where "c55 = binary64 0.55"
  define c45 where "c45 = binary64 0.45"
  define m2 where "m2 = binary64 (H - ay)"
  define A where "A = binary64 (ay / c55)"
  define B where "B = binary64 (m2 / c45)"
  define mh where "mh = min A B"
  have u0: "0 < u" and u8: "u \<le> 1 / 8"
    using unit_roundoff_pos unit_roundoff_small by (simp_all add: u_def)
  have c55: "0 < c55" unfolding c55_def by (rule binary64_pos) simp
  have c45: "0 < c45" unfolding c45_def by (rule binary64_pos) simp
  have "0.55 * (1 - u) \<le> c55"
    unfolding c55_def u_def by (rule binary64_lower) simp
  then have l55: "11 / 20 * (1 - u) \<le> c55" by simp
  have "0.45 * (1 - u) \<le> c45"
    unfolding c45_def u_def by (rule binary64_lower) simp
  then have l45: "9 / 20 * (1 - u) \<le> c45" by simp
  from pos have mh: "0 < mh" by (simp add: mh_def A_def B_def c55_def c45_def m2_def)
  then have A: "0 < A" and B: "0 < B" by (simp_all add: mh_def)
  from A have "0 < ay / c55" unfolding A_def by (rule binary64_pos_imp)
  with c55 have ay: "0 < ay" by (simp add: zero_less_divide_iff)
  from B have "0 < m2 / c45" unfolding B_def by (rule binary64_pos_imp)
  with c45 have m2: "0 < m2" by (simp add: zero_less_divide_iff)
  then have d: "0 < H - ay" unfolding m2_def by (rule binary64_pos_imp)
  with ay have H: "0 < H" by simp
  have "A \<le> ay / c55 * (1 + u)"
    unfolding A_def u_def by (rule binary64_upper) (use ay c55 in simp)
  then have "A * c55 \<le> ay * (1 + u)"
    using c55 by (simp add: field_simps)
  moreover have "A * (11 / 20 * (1 - u)) \<le> A * c55"
    using l55 A by (simp only: mult_le_cancel_left_pos)
  ultimately have a1: "A * (11 / 20 * (1 - u)) \<le> ay * (1 + u)" by linarith
  have "0 \<le> ay * (1 + u)" using ay u0 by simp
  moreover have "1 \<le> 1 + u" using u0 by simp
  ultimately have "ay * (1 + u) * 1 \<le> ay * (1 + u) * (1 + u)"
    by (rule mult_left_mono [rotated])
  then have "ay * (1 + u) \<le> ay * ((1 + u) * (1 + u))"
    by (simp only: mult.assoc mult_1_right)
  with a1 have "A * (11 / 20 * (1 - u)) \<le> ay * ((1 + u) * (1 + u))"
    by (rule order_trans)
  then have a2: "11 / 20 * (A * (1 - u)) \<le> ay * ((1 + u) * (1 + u))"
    by (simp only: mult.left_commute)
  have m2u: "m2 \<le> (H - ay) * (1 + u)"
    unfolding m2_def u_def by (rule binary64_upper) (use d in simp)
  have "B \<le> m2 / c45 * (1 + u)"
    unfolding B_def u_def by (rule binary64_upper) (use m2 c45 in simp)
  then have "B * c45 \<le> m2 * (1 + u)"
    using c45 by (simp add: field_simps)
  also have "\<dots> \<le> (H - ay) * (1 + u) * (1 + u)"
    using m2u u0 by (simp add: mult_right_mono)
  finally have "B * c45 \<le> (H - ay) * ((1 + u) * (1 + u))" by (simp only: mult.assoc)
  moreover have "B * (9 / 20 * (1 - u)) \<le> B * c45"
    using l45 B by (simp only: mult_le_cancel_left_pos)
  ultimately have "B * (9 / 20 * (1 - u)) \<le> (H - ay) * ((1 + u) * (1 + u))"
    by (rule order_trans [rotated])
  then have b2: "9 / 20 * (B * (1 - u)) \<le> (H - ay) * ((1 + u) * (1 + u))"
    by (simp only: mult.left_commute)
  have one: "0 < 1 - u" using u8 by simp
  have "mh * (1 - u) \<le> A * (1 - u)" "mh * (1 - u) \<le> B * (1 - u)"
    using one by (simp_all add: mh_def)
  then have "mh * (1 - u) \<le> 11 / 20 * (A * (1 - u)) + 9 / 20 * (B * (1 - u))"
    by linarith
  also have "\<dots> \<le> ay * ((1 + u) * (1 + u)) + (H - ay) * ((1 + u) * (1 + u))"
    using a2 b2 by linarith
  also have "\<dots> = H * ((1 + u) * (1 + u))" by (simp add: algebra_simps)
  also have "\<dots> \<le> H * ((1 + 4 * u) * (1 - u))"
    using roundoff_quot4 H by (simp only: u_def mult_le_cancel_left_pos)
  finally have "mh * (1 - u) \<le> (H * (1 + 4 * u)) * (1 - u)" by (simp add: mult_ac)
  with one have "mh \<le> H * (1 + 4 * u)"
    by (simp only: mult_le_cancel_right_pos)
  then show ?thesis
    using H by (simp add: mh_def A_def B_def c55_def c45_def m2_def u_def algebra_simps)
qed

lemma clamp_nearly:
  fixes W w x0 :: real
  assumes w: "0 < w" and W: "0 \<le> W" and wW: "w \<le> W + 7 * (unit_roundoff * W)"
  shows "0 \<le> max 0 (min x0 (binary64 (W - w)))
    \<and> max 0 (min x0 (binary64 (W - w))) + w \<le> W + 7 * (unit_roundoff * W)"
proof (cases "0 \<le> W - w")
  case True
  have u0: "0 \<le> unit_roundoff" using unit_roundoff_pos by simp
  have "binary64 (W - w) \<le> (W - w) * (1 + unit_roundoff)"
    using True by (rule binary64_upper)
  also have "\<dots> = W - w + unit_roundoff * (W - w)" by (simp add: algebra_simps)
  also have "unit_roundoff * (W - w) \<le> unit_roundoff * W"
    using u0 w by (simp add: mult_left_mono)
  finally have f: "binary64 (W - w) + w \<le> W + unit_roundoff * W" by simp
  have "0 \<le> unit_roundoff * W" using u0 W by simp
  with f w True show ?thesis by (auto simp: max_def min_def)
next
  case False
  then have "binary64 (W - w) \<le> 0" by (simp add: binary64_nonpos)
  then have "max 0 (min x0 (binary64 (W - w))) = 0" by (simp add: max_def min_def)
  with wW show ?thesis by simp
qed

lemma branch_bounds:
  fixes W H a mw mh :: real
  assumes a: "0 < a" and W: "0 \<le> W" and Hn: "0 \<le> H"
    and mwb: "0 < mw \<Longrightarrow> mw \<le> W + 3 * (unit_roundoff * W)"
    and mhb: "0 < mh \<Longrightarrow> mh \<le> H + 4 * (unit_roundoff * H)"
    and h: "0 < (if binary64 (mw / a) \<le> mh then binary64 (mw / a) else mh)"
  shows "0 < (if binary64 (mw / a) \<le> mh then mw else binary64 (mh * a))
    \<and> (if binary64 (mw / a) \<le> mh then mw else binary64 (mh * a))
        \<le> W + 7 * (unit_roundoff * W)
    \<and> (if binary64 (mw / a) \<le> mh then binary64 (mw / a) else mh)
        \<le> H + 7 * (unit_roundoff * H)"
proof -
  define u where "u = unit_roundoff"
  have u0: "0 < u" and u8: "u \<le> 1 / 8"
    using unit_roundoff_pos unit_roundoff_small by (simp_all add: u_def)
  have uW: "0 \<le> u * W" and uH: "0 \<le> u * H" using u0 W Hn by simp_all
  show ?thesis
  proof (cases "binary64 (mw / a) \<le> mh")
    case True
    with h have hp: "0 < binary64 (mw / a)" by simp
    then have "0 < mw / a" by (rule binary64_pos_imp)
    with a have mw: "0 < mw" by (simp add: zero_less_divide_iff)
    from hp True have "0 < mh" by linarith
    from mwb [OF mw] mhb [OF this] True mw uW uH show ?thesis
      by (simp add: u_def)
  next
    case False
    with h have mh: "0 < mh" by simp
    from False mh have "0 < binary64 (mw / a)" by linarith
    then have q: "0 < mw / a" by (rule binary64_pos_imp)
    with a have mw: "0 < mw" by (simp add: zero_less_divide_iff)
    have "binary64 (mw / a) \<le> mw / a * (1 + u)"
      unfolding u_def by (rule binary64_upper) (use q in simp)
    with False have "mh < mw / a * (1 + u)" by linarith
    then have 1: "mh * a \<le> mw * (1 + u)"
      using a by (simp add: field_simps)
    have pos: "0 < mh * a" using mh a by simp
    then have wp: "0 < binary64 (mh * a)" by (rule binary64_pos)
    have "binary64 (mh * a) \<le> mh * a * (1 + u)"
      unfolding u_def by (rule binary64_upper) (use pos in simp)
    also have "\<dots> \<le> mw * (1 + u) * (1 + u)"
      using 1 u0 by (simp add: mult_right_mono)
    also have "\<dots> = mw * ((1 + u) * (1 + u))" by simp
    also have "\<dots> \<le> mw * (1 + 3 * u)"
      using roundoff_square mw by (simp only: u_def mult_le_cancel_left_pos)
    also have "\<dots> \<le> (W + 3 * (u * W)) * (1 + 3 * u)"
      using mwb [OF mw] u0 by (simp add: u_def mult_right_mono)
    also have "\<dots> = W * ((1 + 3 * u) * (1 + 3 * u))" by (simp add: algebra_simps)
    also have "\<dots> \<le> W * (1 + 7 * u)"
      using roundoff_square3 W by (simp only: u_def mult_left_mono)
    finally have "binary64 (mh * a) \<le> W + 7 * (u * W)" by (simp add: algebra_simps)
    with wp False mhb [OF mh] uH show ?thesis
      by (simp add: u_def)
  qed
qed

text \<open>
  The region the code computes is the subject frame of the specification.
\<close>

lemma autoCropRect_spec: "autoCropRect img ts n l r = subjectFrame img ts n l r"
proof -
  have h: "x * 0.5 = x / 2" "0.5 * x = x * 0.5" for x :: real
    by simp_all
  show ?thesis
    by (simp only: subjectFrame_def Let_def clampInto_def autoCropRect_def cropWidth_def
        cropHeight_def maxCropWidthFromX_def maxCropHeightFromY_def cropAnchorY_def
        shoulderCenterX_def shoulderCenterY_def targetAspect_def h)
qed


lemma tolerance7: "0 \<le> L \<Longrightarrow> 7 * (unit_roundoff * L) \<le> L / 2 ^ 50"
  by (simp add: unit_roundoff_def)



text \<open>
  The subject frame of positive height: its origin is never negative, it ends in the
  image up to seven rounding errors, and it has the rounded target aspect up to two
  rounding errors.
\<close>

lemma auto_geometry:
  assumes a: "0 < targetAspect ts" and h: "0 < cropHeight img ts n l r"
  shows "nearlyInBounds img (autoCropRect img ts n l r)
    \<and> 0 \<le> crop_x (autoCropRect img ts n l r) \<and> 0 \<le> crop_y (autoCropRect img ts n l r)
    \<and> \<bar>cropWidth img ts n l r / cropHeight img ts n l r - targetAspect ts\<bar>
        \<le> 2 * unit_roundoff * targetAspect ts"
proof -
  define W where "W = real (img_width img)"
  define H where "H = real (img_height img)"
  define eW where "eW = W / 2 ^ 50"
  define eH where "eH = H / 2 ^ 50"
  define mw where "mw = maxCropWidthFromX img l r"
  define mh where "mh = maxCropHeightFromY img n l r"
  define w where "w = cropWidth img ts n l r"
  define hh where "hh = cropHeight img ts n l r"
  define X where "X = max 0 (min (binary64 (shoulderCenterX l r - binary64 (w * 0.5)))
                              (binary64 (W - w)))"
  define Y where "Y = max 0 (min (binary64 (cropAnchorY n l r - binary64 (hh * 0.5)))
                              (binary64 (H - hh)))"
  have W: "0 \<le> W" and H: "0 \<le> H" by (simp_all add: W_def H_def)
  have u0: "0 \<le> unit_roundoff" using unit_roundoff_pos by simp
  have eW: "0 \<le> eW" and eH: "0 \<le> eH" using W H by (simp_all add: eW_def eH_def)
  have nb: "nearlyInBounds img R \<longleftrightarrow>
      - eW \<le> crop_x R \<and> - eH \<le> crop_y R
      \<and> crop_x R + crop_width R \<le> W + eW \<and> crop_y R + crop_height R \<le> H + eH" for R
    by (simp only: nearlyInBounds_def W_def H_def eW_def eH_def)
  have rect: "autoCropRect img ts n l r
      = \<lparr>crop_x = X, crop_y = Y, crop_width = w, crop_height = hh\<rparr>"
    by (simp only: autoCropRect_def X_def Y_def w_def hh_def W_def H_def)
  have mwb: "0 < mw \<Longrightarrow> mw \<le> W + 3 * (unit_roundoff * W)"
    unfolding mw_def maxCropWidthFromX_def W_def by (rule conjunct2 [OF maxWidth_bound])
  have mhb: "0 < mh \<Longrightarrow> mh \<le> H + 4 * (unit_roundoff * H)"
    unfolding mh_def maxCropHeightFromY_def H_def by (rule conjunct2 [OF maxHeight_bound])
  have wd: "w = (if binary64 (mw / targetAspect ts) \<le> mh then mw
                 else binary64 (mh * targetAspect ts))"
    by (simp only: w_def cropWidth_def mw_def mh_def)
  have hd: "hh = (if binary64 (mw / targetAspect ts) \<le> mh
                  then binary64 (mw / targetAspect ts) else mh)"
    by (simp only: hh_def cropHeight_def mw_def mh_def)
  have hpos: "0 < hh" using h by (simp only: hh_def)
  have b: "0 < w \<and> w \<le> W + 7 * (unit_roundoff * W) \<and> hh \<le> H + 7 * (unit_roundoff * H)"
    unfolding wd hd
    by (rule branch_bounds [OF a W H mwb mhb]) (use hpos in \<open>simp_all only: hd\<close>)
  note cx = clamp_nearly [OF conjunct1 [OF b] W conjunct1 [OF conjunct2 [OF b]],
      of "binary64 (shoulderCenterX l r - binary64 (w * 0.5))"]
  note cy = clamp_nearly [OF hpos H conjunct2 [OF conjunct2 [OF b]],
      of "binary64 (cropAnchorY n l r - binary64 (hh * 0.5))"]
  have tW: "7 * (unit_roundoff * W) \<le> eW" unfolding eW_def using W by (rule tolerance7)
  have tH: "7 * (unit_roundoff * H) \<le> eH" unfolding eH_def using H by (rule tolerance7)
  have 1: "0 \<le> X" "X + w \<le> W + eW" using cx tW by (simp_all only: X_def) linarith+
  have 2: "0 \<le> Y" "Y + hh \<le> H + eH" using cy tH by (simp_all only: Y_def) linarith+
  have 3: "- eW \<le> X" "- eH \<le> Y" using 1 2 eW eH by linarith+
  have ratio: "\<bar>w / hh - targetAspect ts\<bar> \<le> 2 * unit_roundoff * targetAspect ts"
  proof (cases "binary64 (mw / targetAspect ts) \<le> mh")
    case True
    with hpos have "0 < binary64 (mw / targetAspect ts)" by (simp add: hd)
    then have "0 < mw / targetAspect ts" by (rule binary64_pos_imp)
    with a have "0 < mw" by (simp add: zero_less_divide_iff)
    from div_round_ratio [OF this a] True show ?thesis
      by (simp add: wd hd)
  next
    case False
    with hpos have "0 < mh" by (simp add: hd)
    from mul_round_ratio [OF this a] have
      "\<bar>binary64 (mh * targetAspect ts) / mh - targetAspect ts\<bar> \<le> unit_roundoff * targetAspect ts"
      by simp
    moreover have "unit_roundoff * targetAspect ts \<le> 2 * unit_roundoff * targetAspect ts"
      using u0 a by (simp add: mult_right_mono)
    ultimately show ?thesis
      using False by (simp add: wd hd)
  qed
  from 1 2 3 ratio show ?thesis
    by (simp only: nb rect crop_rect.select_convs w_def [symmetric] hh_def [symmetric])
qed


section \<open>The crop invariant\<close>

lemma aspect_150_174: "targetAspect \<lparr>ts_w = 150, ts_h = 174\<rparr> = 7764826943742234 / 2 ^ 53"
proof -
  have a: "2 powi (- 1) \<le> \<bar>25 / 29 :: real\<bar>" by simp
  have b: "\<bar>25 / 29 :: real\<bar> < 2 powi (- 1 + 1)" by simp
  have c: "\<bar>(25 / 29 :: real) / 2 powi (- 1 - 52) - of_int 7764826943742234\<bar> < 1 / 2"
    by (simp add: power_int_minus)
  from binary64_eval [OF a b c] have "binary64 (25 / 29) = 7764826943742234 / 2 ^ 53"
    by (simp add: power_int_minus)
  then show ?thesis
    by (simp add: targetAspect_def)
qed





lemma binary64_numerals:
  "binary64 35 = 35" "binary64 50 = 50" "binary64 75 = 75" "binary64 125 = 125"
  "binary64 150 = 150" "binary64 300 = 300" "binary64 350 = 350"
  using binary64_of_int [of 35] binary64_of_int [of 50] binary64_of_int [of 75]
    binary64_of_int [of 125] binary64_of_int [of 150] binary64_of_int [of 300]
    binary64_of_int [of 350]
  by simp_all

lemma sample_anchors:
  "shoulderCenterX sampleLeft sampleRight = 150"
  "cropAnchorY sampleNose sampleLeft sampleRight = 125"
  by (simp_all add: shoulderCenterX_def shoulderCenterY_def cropAnchorY_def sampleNose_def
      sampleLeft_def sampleRight_def binary64_numerals)

lemma sample_height_pos:
  assumes W: "150 < img_width im" and H: "125 < img_height im" and a: "0 < targetAspect ts"
  shows "0 < cropHeight im ts sampleNose sampleLeft sampleRight"
proof -
  have "0 < binary64 (real (img_width im) - 150)"
    by (rule binary64_pos) (use W in simp)
  then have "0 < 2 * min 150 (binary64 (real (img_width im) - 150))"
    by simp
  then have mw: "0 < maxCropWidthFromX im sampleLeft sampleRight"
    unfolding maxCropWidthFromX_def sample_anchors by (rule binary64_pos)
  have c55: "0 < binary64 0.55" and c45: "0 < binary64 0.45"
    by (rule binary64_pos, simp)+
  have "0 < binary64 (real (img_height im) - 125)"
    by (rule binary64_pos) (use H in simp)
  with c45 have "0 < binary64 (real (img_height im) - 125) / binary64 0.45"
    by (rule divide_pos_pos [rotated])
  then have h1: "0 < binary64 (binary64 (real (img_height im) - 125) / binary64 0.45)"
    by (rule binary64_pos)
  from c55 have "0 < 125 / binary64 0.55"
    by (rule divide_pos_pos [rotated]) simp
  then have h2: "0 < binary64 (125 / binary64 0.55)"
    by (rule binary64_pos)
  from h1 h2 have mh: "0 < maxCropHeightFromY im sampleNose sampleLeft sampleRight"
    unfolding maxCropHeightFromY_def sample_anchors by (simp only: min_less_iff_conj)
  from mw a have "0 < maxCropWidthFromX im sampleLeft sampleRight / targetAspect ts"
    by (rule divide_pos_pos)
  then have "0 < binary64 (maxCropWidthFromX im sampleLeft sampleRight / targetAspect ts)"
    by (rule binary64_pos)
  with mh show ?thesis
    unfolding cropHeight_def by simp
qed

lemma sample_region:
  "getAutoCropRegion im ts (Some goodDetector)
     = (Some (autoCropRect im ts sampleNose sampleLeft sampleRight), 1)"
  by (simp add: getAutoCropRegion_def goodDetector_def findKeypoint_def
      sampleNose_def sampleLeft_def sampleRight_def)





section \<open>The subject frame\<close>

text \<open>
  The size of the subject frame of the scenario in the 500 x 160 image, each rounding
  evaluated.
\<close>

lemma banner_frame:
  "cropWidth bannerImage \<lparr>ts_w = 150, ts_h = 174\<rparr> sampleNose sampleLeft sampleRight
     = 2359105408255019 / 2 ^ 45
   \<and> cropHeight bannerImage \<lparr>ts_w = 150, ts_h = 174\<rparr> sampleNose sampleLeft sampleRight
     = 1368281136787911 / 2 ^ 44
   \<and> binary64 ((2359105408255019 / 2 ^ 45) / (1368281136787911 / 2 ^ 44))
     = 7764826943742235 / 2 ^ 53
   \<and> binary64 (150 / 174) = 7764826943742234 / 2 ^ 53"
proof -
  define a :: real where "a = 7764826943742234 / 2 ^ 53"
  define c55 :: real where "c55 = 4953959590107546 / 2 ^ 53"
  define c45 :: real where "c45 = 8106479329266893 / 2 ^ 54"
  define A :: real where "A = 7996448202007272 / 2 ^ 45"
  define B :: real where "B = 5473124547151644 / 2 ^ 46"
  define w :: real where "w = 4718210816510038 / 2 ^ 46"
  have ta: "targetAspect \<lparr>ts_w = 150, ts_h = 174\<rparr> = a"
    by (simp only: aspect_150_174 a_def)
  have ia: "binary64 (25 / 29) = a"
    using ta by (simp add: targetAspect_def)
  have c55: "binary64 (11 / 20) = c55"
  proof -
    have a: "2 powi (- 1) \<le> \<bar>11 / 20 :: real\<bar>" by simp
    have b: "\<bar>11 / 20 :: real\<bar> < 2 powi (- 1 + 1)" by simp
    have c: "\<bar>(11 / 20 :: real) / 2 powi (- 1 - 52) - of_int 4953959590107546\<bar> < 1 / 2"
      by (simp add: power_int_minus)
    from binary64_eval [OF a b c] show ?thesis
      by (simp add: c55_def power_int_minus)
  qed
  have c45: "binary64 (9 / 20) = c45"
  proof -
    have a: "2 powi (- 2) \<le> \<bar>9 / 20 :: real\<bar>" by (simp add: power_int_minus)
    have b: "\<bar>9 / 20 :: real\<bar> < 2 powi (- 2 + 1)" by (simp add: power_int_minus)
    have c: "\<bar>(9 / 20 :: real) / 2 powi (- 2 - 52) - of_int 8106479329266893\<bar> < 1 / 2"
      by (simp add: power_int_minus)
    from binary64_eval [OF a b c] show ?thesis
      by (simp add: c45_def power_int_minus)
  qed
  have A: "binary64 (125 / c55) = A"
  proof -
    have a: "2 powi 7 \<le> \<bar>125 / c55\<bar>" by (simp add: c55_def)
    have b: "\<bar>125 / c55\<bar> < 2 powi (7 + 1)" by (simp add: c55_def)
    have c: "\<bar>125 / c55 / 2 powi (7 - 52) - of_int 7996448202007272\<bar> < 1 / 2"
      by (simp add: c55_def power_int_minus)
    from binary64_eval [OF a b c] show ?thesis
      by (simp add: A_def power_int_minus)
  qed
  have B: "binary64 (35 / c45) = B"
  proof -
    have a: "2 powi 6 \<le> \<bar>35 / c45\<bar>" by (simp add: c45_def)
    have b: "\<bar>35 / c45\<bar> < 2 powi (6 + 1)" by (simp add: c45_def)
    have c: "\<bar>35 / c45 / 2 powi (6 - 52) - of_int 5473124547151644\<bar> < 1 / 2"
      by (simp add: c45_def power_int_minus)
    from binary64_eval [OF a b c] show ?thesis
      by (simp add: B_def power_int_minus)
  qed
  have q: "binary64 (300 / a) = 348"
  proof -
    have a: "2 powi 8 \<le> \<bar>300 / a\<bar>" by (simp add: a_def)
    have b: "\<bar>300 / a\<bar> < 2 powi (8 + 1)" by (simp add: a_def)
    have c: "\<bar>300 / a / 2 powi (8 - 52) - of_int 6122080743456768\<bar> < 1 / 2"
      by (simp add: a_def power_int_minus)
    from binary64_eval [OF a b c] show ?thesis
      by (simp add: power_int_minus)
  qed
  have w: "binary64 (B * a) = w"
  proof -
    have a: "2 powi 6 \<le> \<bar>B * a\<bar>" by (simp add: a_def B_def)
    have b: "\<bar>B * a\<bar> < 2 powi (6 + 1)" by (simp add: a_def B_def)
    have c: "\<bar>B * a / 2 powi (6 - 52) - of_int 4718210816510038\<bar> < 1 / 2"
      by (simp add: a_def B_def power_int_minus)
    from binary64_eval [OF a b c] show ?thesis
      by (simp add: w_def power_int_minus)
  qed
  have r: "binary64 (w / B) = 7764826943742235 / 2 ^ 53"
  proof -
    have a: "2 powi (- 1) \<le> \<bar>w / B\<bar>" by (simp add: w_def B_def)
    have b: "\<bar>w / B\<bar> < 2 powi (- 1 + 1)" by (simp add: w_def B_def)
    have c: "\<bar>w / B / 2 powi (- 1 - 52) - of_int 7764826943742235\<bar> < 1 / 2"
      by (simp add: w_def B_def power_int_minus)
    from binary64_eval [OF a b c] show ?thesis
      by (simp add: power_int_minus)
  qed
  have m: "min A B = B" "\<not> 348 \<le> B"
    by (simp_all add: A_def B_def)
  have mw: "maxCropWidthFromX bannerImage sampleLeft sampleRight = 300"
    by (simp add: maxCropWidthFromX_def sample_anchors bannerImage_def binary64_numerals)
  have mh: "maxCropHeightFromY bannerImage sampleNose sampleLeft sampleRight = B"
    by (simp add: maxCropHeightFromY_def sample_anchors bannerImage_def binary64_numerals
        c55 c45 A B m)
  have cw: "cropWidth bannerImage \<lparr>ts_w = 150, ts_h = 174\<rparr> sampleNose sampleLeft sampleRight = w"
    by (simp only: cropWidth_def mw mh ta q m if_False w)
  have ch: "cropHeight bannerImage \<lparr>ts_w = 150, ts_h = 174\<rparr> sampleNose sampleLeft sampleRight = B"
    by (simp only: cropHeight_def mw mh ta q m if_False)
  have w': "w = 2359105408255019 / 2 ^ 45" and B': "B = 1368281136787911 / 2 ^ 44"
    by (simp_all add: w_def B_def)
  have i: "binary64 (150 / 174) = 7764826943742234 / 2 ^ 53"
    using ia by (simp add: a_def)
  from cw ch r i show ?thesis
    by (simp only: w' B')
qed

text \<open>
  C5, as the code has it. When the first pose has the three keypoints, the region of
  \<open>getAutoCropRegion\<close> is the subject frame of the specification, obtained with one pose
  estimation. For shoulders at (100,150) and (200,150), nose at (150,100) and the target
  150 x 174, the vertical anchor is 125 and, in every image the anchors lie strictly
  inside of, the region has a positive height and its width divided by its height is
  150/174 up to the relative error \<open>2 powi (- 51)\<close>.
\<close>

theorem subject_frame_formula:
  "(estimatePoses img = Poses (Some kps # rest)
      \<and> findKeypoint kps ''nose'' = Some n
      \<and> findKeypoint kps ''left_shoulder'' = Some l
      \<and> findKeypoint kps ''right_shoulder'' = Some r
     \<longrightarrow> getAutoCropRegion img ts (Some estimatePoses) = (Some (subjectFrame img ts n l r), 1))
   \<and> cropAnchorY sampleNose sampleLeft sampleRight = 125
   \<and> (150 < img_width im \<and> 125 < img_height im \<longrightarrow>
        (\<exists>reg. getAutoCropRegion im \<lparr>ts_w = 150, ts_h = 174\<rparr> (Some goodDetector) = (Some reg, 1)
           \<and> 0 < crop_height reg
           \<and> \<bar>crop_width reg / crop_height reg - 150 / 174\<bar> \<le> 150 / 174 / 2 ^ 51))"
proof (intro conjI impI)
  assume h: "estimatePoses img = Poses (Some kps # rest)
      \<and> findKeypoint kps ''nose'' = Some n
      \<and> findKeypoint kps ''left_shoulder'' = Some l
      \<and> findKeypoint kps ''right_shoulder'' = Some r"
  have "autoCropRect img ts n l r = subjectFrame img ts n l r"
    by (rule autoCropRect_spec)
  with h show "getAutoCropRegion img ts (Some estimatePoses) = (Some (subjectFrame img ts n l r), 1)"
    by (simp add: getAutoCropRegion_def)
next
  show "cropAnchorY sampleNose sampleLeft sampleRight = 125"
    by (rule sample_anchors)
next
  let ?ts = "\<lparr>ts_w = 150, ts_h = 174\<rparr>"
  let ?R = "autoCropRect im ?ts sampleNose sampleLeft sampleRight"
  assume d: "150 < img_width im \<and> 125 < img_height im"
  have p: "0 < ts_w ?ts" "0 < ts_h ?ts" by simp_all
  note near = targetAspect_near [OF p]
  from d have hp: "0 < cropHeight im ?ts sampleNose sampleLeft sampleRight"
    by (intro sample_height_pos conjunct1 [OF near]) simp_all
  from auto_geometry [OF conjunct1 [OF near] hp]
  have ratio: "\<bar>cropWidth im ?ts sampleNose sampleLeft sampleRight
        / cropHeight im ?ts sampleNose sampleLeft sampleRight - targetAspect ?ts\<bar>
      \<le> 2 * unit_roundoff * targetAspect ?ts"
    by simp
  have t: "0 < real (ts_w ?ts) / real (ts_h ?ts)" by simp
  from ratio_near_exact [OF t conjunct2 [OF near] ratio]
  have "\<bar>crop_width ?R / crop_height ?R - 150 / 174\<bar> \<le> 150 / 174 / 2 ^ 51"
    by (simp add: autoCropRect_def)
  moreover from hp have "0 < crop_height ?R"
    by (simp add: autoCropRect_def)
  ultimately show "\<exists>reg. getAutoCropRegion im ?ts (Some goodDetector) = (Some reg, 1)
           \<and> 0 < crop_height reg
           \<and> \<bar>crop_width reg / crop_height reg - 150 / 174\<bar> \<le> 150 / 174 / 2 ^ 51"
    using sample_region [of im ?ts] by blast
qed

text \<open>
  The scenario of the specification in a 400 x 300 image.
\<close>

theorem subject_frame_formula_witness:
  "getAutoCropRegion sampleImage \<lparr>ts_w = 150, ts_h = 174\<rparr> (Some goodDetector)
     = (Some (subjectFrame sampleImage \<lparr>ts_w = 150, ts_h = 174\<rparr> sampleNose sampleLeft sampleRight), 1)
   \<and> (\<exists>reg. getAutoCropRegion sampleImage \<lparr>ts_w = 150, ts_h = 174\<rparr> (Some goodDetector)
          = (Some reg, 1)
        \<and> 0 < crop_height reg
        \<and> \<bar>crop_width reg / crop_height reg - 150 / 174\<bar> \<le> 150 / 174 / 2 ^ 51)"
proof -
  have k: "findKeypoint [sampleNose, sampleLeft, sampleRight] ''nose'' = Some sampleNose"
      "findKeypoint [sampleNose, sampleLeft, sampleRight] ''left_shoulder'' = Some sampleLeft"
      "findKeypoint [sampleNose, sampleLeft, sampleRight] ''right_shoulder'' = Some sampleRight"
    by (simp_all add: findKeypoint_def sampleNose_def sampleLeft_def sampleRight_def)
  have g: "goodDetector sampleImage = Poses (Some [sampleNose, sampleLeft, sampleRight] # [])"
    by (simp add: goodDetector_def)
  have d: "150 < img_width sampleImage \<and> 125 < img_height sampleImage"
    by (simp add: sampleImage_def)
  show ?thesis
    using subject_frame_formula
      [of goodDetector sampleImage "[sampleNose, sampleLeft, sampleRight]" "[]"
          sampleNose sampleLeft sampleRight "\<lparr>ts_w = 150, ts_h = 174\<rparr>" sampleImage]
      k g d
    by blast
qed

text \<open>
  C5 as stated fails in a 500 x 160 image: the height bound limits, the width is the
  rounded product of the height and the rounded aspect, and the quotient of the two is
  not 150/174, neither as a real number nor after rounding.
\<close>

theorem subject_frame_counterexample:
  "getAutoCropRegion bannerImage \<lparr>ts_w = 150, ts_h = 174\<rparr> (Some goodDetector)
     = (Some (autoCropRect bannerImage \<lparr>ts_w = 150, ts_h = 174\<rparr>
                sampleNose sampleLeft sampleRight), 1)
   \<and> crop_width (autoCropRect bannerImage \<lparr>ts_w = 150, ts_h = 174\<rparr>
         sampleNose sampleLeft sampleRight) = 2359105408255019 / 2 ^ 45
   \<and> crop_height (autoCropRect bannerImage \<lparr>ts_w = 150, ts_h = 174\<rparr>
         sampleNose sampleLeft sampleRight) = 1368281136787911 / 2 ^ 44
   \<and> (2359105408255019 / 2 ^ 45) / (1368281136787911 / 2 ^ 44) \<noteq> (150 / 174 :: real)
   \<and> binary64 ((2359105408255019 / 2 ^ 45) / (1368281136787911 / 2 ^ 44))
       \<noteq> binary64 (150 / 174)"
proof -
  have "(2359105408255019 / 2 ^ 45) / (1368281136787911 / 2 ^ 44) \<noteq> (150 / 174 :: real)"
    by simp
  moreover have "binary64 ((2359105408255019 / 2 ^ 45) / (1368281136787911 / 2 ^ 44))
       \<noteq> binary64 (150 / 174)"
    by (simp only: banner_frame) simp
  moreover have "crop_width (autoCropRect bannerImage \<lparr>ts_w = 150, ts_h = 174\<rparr>
         sampleNose sampleLeft sampleRight) = 2359105408255019 / 2 ^ 45"
    by (simp only: autoCropRect_def crop_rect.select_convs banner_frame)
  moreover have "crop_height (autoCropRect bannerImage \<lparr>ts_w = 150, ts_h = 174\<rparr>
         sampleNose sampleLeft sampleRight) = 1368281136787911 / 2 ^ 44"
    by (simp only: autoCropRect_def crop_rect.select_convs banner_frame)
  ultimately show ?thesis
    using sample_region [of bannerImage "\<lparr>ts_w = 150, ts_h = 174\<rparr>"] by blast
qed

end
